theory Spec2Isabelle
  imports Complex_Main "HOL-Library.Multiset"
begin

unbundle bit_operations_syntax

section \<open>Text primitives of the host language\<close>

text \<open>
  The scanner works on the text printed by the external probing tool.  Text is a
  \<^typ>\<open>string\<close>; only the ASCII range matters for the tests the scanner makes
  (the markers it looks for are ASCII, and no non-ASCII letter lower-cases to one
  of the letters of \<open>open\<close>).
\<close>

definition nl :: char where
  "nl = CHR 0x0A"

definition dq :: char where
  "dq = CHR 0x22"

text \<open>\<open>s.split('\n')\<close>: the pieces between newlines; the empty text has one empty piece.\<close>

fun split_nl :: "string \<Rightarrow> string list" where
  "split_nl [] = [[]]"
| "split_nl (c # cs) =
     (if c = CHR 0x0A then [] # split_nl cs
      else (case split_nl cs of [] \<Rightarrow> [[c]] | l # ls \<Rightarrow> (c # l) # ls))"

text \<open>\<open>s.startswith(p)\<close> and the substring test \<open>sub in s\<close>.\<close>

definition startswith :: "string \<Rightarrow> string \<Rightarrow> bool" where
  "startswith p s = (take (length p) s = p)"

fun py_in :: "string \<Rightarrow> string \<Rightarrow> bool" where
  "py_in sub [] = (sub = [])"
| "py_in sub (c # cs) = (startswith sub (c # cs) \<or> py_in sub cs)"

text \<open>\<open>s.lower()\<close> on the ASCII letters.\<close>

definition lower_char :: "char \<Rightarrow> char" where
  "lower_char c =
     (let n = (of_char c :: nat) in if 65 \<le> n \<and> n \<le> 90 then char_of (n + 32) else c)"

definition lower :: "string \<Rightarrow> string" where
  "lower s = map lower_char s"

text \<open>White space as \<open>str.strip()\<close> and \<open>str.split()\<close> see it (ASCII range).\<close>

definition is_space :: "char \<Rightarrow> bool" where
  "is_space c = (let n = (of_char c :: nat) in n = 32 \<or> (9 \<le> n \<and> n \<le> 13) \<or> (28 \<le> n \<and> n \<le> 31))"

definition strip :: "string \<Rightarrow> string" where
  "strip s = rev (dropWhile is_space (rev (dropWhile is_space s)))"

fun split_ws_acc :: "string \<Rightarrow> string \<Rightarrow> string list" where
  "split_ws_acc cur [] = (if cur = [] then [] else [cur])"
| "split_ws_acc cur (c # cs) =
     (if is_space c then (if cur = [] then split_ws_acc [] cs else cur # split_ws_acc [] cs)
      else split_ws_acc (cur @ [c]) cs)"

definition split_ws :: "string \<Rightarrow> string list" where
  "split_ws s = split_ws_acc [] s"

text \<open>\<open>sep.join(xs)\<close>.\<close>

fun join :: "string \<Rightarrow> string list \<Rightarrow> string" where
  "join sep [] = []"
| "join sep [x] = x"
| "join sep (x # y # ys) = x @ sep @ join sep (y # ys)"

subsection \<open>The two patterns the scanner matches\<close>

text \<open>
  Both patterns are built from \<open>\d+\<close> followed by a character that is not a digit, so
  the greedy match of \<open>\d+\<close> is the maximal run of digits and no backtracking can
  succeed where the maximal run fails.  Hence a match at a given position is computed by
  taking maximal digit runs; \<open>re.search\<close> tries the positions from left to right and
  \<open>re.match\<close> only the first one.  The digits are the ASCII digits, the only ones the
  external tool prints.
\<close>

definition is_digit :: "char \<Rightarrow> bool" where
  "is_digit c = (let n = (of_char c :: nat) in 48 \<le> n \<and> n \<le> 57)"

definition digits1 :: "string \<Rightarrow> (string \<times> string) option" where
  "digits1 s = (let d = takeWhile is_digit s in
                if d = [] then None else Some (d, dropWhile is_digit s))"

definition lit :: "string \<Rightarrow> string \<Rightarrow> string option" where
  "lit p s = (if startswith p s then Some (drop (length p) s) else None)"

text \<open>A match of \<open>(\d+\.\d+\.\d+\.\d+)\<close> starting at the head of the text.\<close>

definition match_ip :: "string \<Rightarrow> string option" where
  "match_ip s =
     (case digits1 s of None \<Rightarrow> None | Some (a, r1) \<Rightarrow>
      (case lit ''.'' r1 of None \<Rightarrow> None | Some r2 \<Rightarrow>
      (case digits1 r2 of None \<Rightarrow> None | Some (b, r3) \<Rightarrow>
      (case lit ''.'' r3 of None \<Rightarrow> None | Some r4 \<Rightarrow>
      (case digits1 r4 of None \<Rightarrow> None | Some (c, r5) \<Rightarrow>
      (case lit ''.'' r5 of None \<Rightarrow> None | Some r6 \<Rightarrow>
      (case digits1 r6 of None \<Rightarrow> None | Some (d, r7) \<Rightarrow>
         Some (a @ ''.'' @ b @ ''.'' @ c @ ''.'' @ d))))))))"

text \<open>\<open>re.search(r'(\d+\.\d+\.\d+\.\d+)', line)\<close>: the leftmost match.\<close>

fun search_ip :: "string \<Rightarrow> string option" where
  "search_ip [] = match_ip []"
| "search_ip (c # cs) =
     (case match_ip (c # cs) of Some m \<Rightarrow> Some m | None \<Rightarrow> search_ip cs)"

text \<open>\<open>re.match(r'(\d+/tcp)', line)\<close>.\<close>

definition match_tcp_port :: "string \<Rightarrow> string option" where
  "match_tcp_port s =
     (case digits1 s of None \<Rightarrow> None | Some (a, r1) \<Rightarrow>
      (case lit ''/tcp'' r1 of None \<Rightarrow> None | Some r2 \<Rightarrow> Some (a @ ''/tcp'')))"

section \<open>The address range (standard library \<open>ipaddress.IPv4Network\<close>)\<close>

text \<open>
  The range object comes from the language's standard library, not from the scanner.
  It is modelled from the library: addresses are integers below \<open>2 ^ 32\<close>, the netmask
  of prefix length \<open>p\<close> is \<open>ALL_ONES XOR (ALL_ONES >> p)\<close>, and with
  \<open>strict=False\<close> the host bits of the given address are masked away.
  \<open>hosts()\<close> leaves out the network and the broadcast address, except that a range of
  prefix length 31 yields both of its addresses and one of prefix length 32 its single
  address (there the mask is all ones, so the address given is the network address).
\<close>

datatype exn = ValueError | KeyboardInterrupt | OtherError

record ipv4network =
  network_address :: nat
  prefixlen :: nat

definition ALL_ONES :: nat where
  "ALL_ONES = 2 ^ 32 - 1"

definition make_netmask :: "nat \<Rightarrow> nat" where
  "make_netmask p = ALL_ONES XOR drop_bit p ALL_ONES"

definition IPv4Network :: "nat \<Rightarrow> nat \<Rightarrow> exn + ipv4network" where
  "IPv4Network addr p =
     (if addr \<le> ALL_ONES \<and> p \<le> 32
      then Inr \<lparr>network_address = addr AND make_netmask p, prefixlen = p\<rparr>
      else Inl ValueError)"

definition netmask :: "ipv4network \<Rightarrow> nat" where
  "netmask n = make_netmask (prefixlen n)"

definition hostmask :: "ipv4network \<Rightarrow> nat" where
  "hostmask n = netmask n XOR ALL_ONES"

definition broadcast_address :: "ipv4network \<Rightarrow> nat" where
  "broadcast_address n = network_address n OR hostmask n"

definition num_addresses :: "ipv4network \<Rightarrow> nat" where
  "num_addresses n = broadcast_address n - network_address n + 1"

text \<open>Iterating over the range: every address from the network to the broadcast address.\<close>

definition addresses :: "ipv4network \<Rightarrow> nat list" where
  "addresses n = [network_address n ..< broadcast_address n + 1]"

definition hosts :: "ipv4network \<Rightarrow> nat list" where
  "hosts n =
     (if prefixlen n = 31 then addresses n
      else if prefixlen n = 32 then [network_address n]
      else [network_address n + 1 ..< broadcast_address n])"

text \<open>\<open>str(ip)\<close>: the dotted quad of the four bytes, most significant first.\<close>

definition digit_char :: "nat \<Rightarrow> char" where
  "digit_char d = char_of (48 + d)"

definition str_octet :: "nat \<Rightarrow> string" where
  "str_octet n =
     (if n < 10 then [digit_char n]
      else if n < 100 then [digit_char (n div 10), digit_char (n mod 10)]
      else [digit_char (n div 100), digit_char (n div 10 mod 10), digit_char (n mod 10)])"

definition str_ip :: "nat \<Rightarrow> string" where
  "str_ip a =
     str_octet (a div 2 ^ 24 mod 256) @ ''.'' @ str_octet (a div 2 ^ 16 mod 256) @ ''.'' @
     str_octet (a div 2 ^ 8 mod 256) @ ''.'' @ str_octet (a mod 256)"

section \<open>The scanner and the world around it\<close>

text \<open>
  What the scanner does to the outside is recorded as a trace of events: each call of the
  external tool, each sleep, and the console lines that report an outcome (the banner,
  the progress lines and the summaries are left out).  The files it writes are a map
  from file name to content.
\<close>

datatype event =
    RunNmapVersion
  | RunPingSweep string
  | RunProbe string
  | Sleep real
  | Print string

text \<open>
  The delay is a floating-point number taken from the command line as it is: it may be
  negative, infinite or not a number.  \<open>time.sleep(d)\<close> raises for a \<open>d\<close> that is
  not a number or negative, and for a \<open>d\<close> too long for the clock of the platform
  (every infinite one, and the finite ones beyond a limit of the platform); otherwise
  it sleeps for \<open>d\<close>.  \<open>sleep_time\<close> is the time slept, if the call is accepted.
\<close>

datatype pyfloat = Finite real | PosInf | NegInf | NaN

definition sleep_time :: "real \<Rightarrow> pyfloat \<Rightarrow> real option" where
  "sleep_time limit d =
     (case d of
        Finite r \<Rightarrow> if 0 \<le> r \<and> r \<le> limit then Some r else None
      | PosInf \<Rightarrow> None
      | NegInf \<Rightarrow> None
      | NaN \<Rightarrow> None)"

record scanner =
  target_range :: string
  max_threads :: int
  delay :: pyfloat
  network :: ipv4network
  total_hosts :: nat
  output_base :: string
  live_hosts :: "string list"
  active_scans :: int
  completed_scans :: int
  results_queue :: "(string \<times> string) list"
  fs :: "string \<rightharpoonup> string"
  trace :: "event list"

text \<open>
  The answers of the outside world.  A call of the external tool returns, times out,
  fails, or is cut short by the user's interrupt; a file can or cannot be opened for
  writing; the clock of the platform has a longest sleep; the threads of the pool are
  interleaved in some order.
\<close>

datatype check_outcome =
    VersionOk
  | CalledProcessError
  | FileNotFoundError
  | CheckOtherError
  | CheckInterrupt

datatype sweep_outcome =
    SweepDone string
  | SweepTimeout
  | SweepFailed
  | SweepInterrupt

datatype probe_outcome =
    Returned int string
  | ProbeTimeout
  | ProbeFailed

type_synonym task = "nat \<times> string"

record env =
  nmap_check :: check_outcome
  sweep :: sweep_outcome
  probe :: "task \<Rightarrow> probe_outcome"
  writable :: "string \<Rightarrow> bool"
  now :: string
  sleep_limit :: real
  schedule :: "nat list"
  interrupt_after :: "nat option"

definition say :: "string \<Rightarrow> scanner \<Rightarrow> scanner" where
  "say msg s = s\<lparr>trace := trace s @ [Print msg]\<rparr>"

definition emit :: "event \<Rightarrow> scanner \<Rightarrow> scanner" where
  "emit e s = s\<lparr>trace := trace s @ [e]\<rparr>"

subsection \<open>Construction\<close>

text \<open>
  The constructor receives the range text and what the library's parser made of it: the
  address and the prefix length, or nothing when the text is no address/prefix pair.
  An invalid range ends the process with exit code 1.
\<close>

definition range_clean :: "string \<Rightarrow> string" where
  "range_clean r =
     map (\<lambda>c. if c = CHR ''.'' then CHR ''-'' else c)
       (map (\<lambda>c. if c = CHR ''/'' then CHR ''_'' else c) r)"

definition NetworkScanner ::
  "string \<Rightarrow> (nat \<times> nat) option \<Rightarrow> int \<Rightarrow> pyfloat \<Rightarrow> (string \<rightharpoonup> string) \<Rightarrow> int + scanner" where
  "NetworkScanner rng parsed threads d files =
     (case parsed of
        None \<Rightarrow> Inl 1
      | Some (addr, p) \<Rightarrow>
          (case IPv4Network addr p of
             Inl e \<Rightarrow> Inl 1
           | Inr n \<Rightarrow>
               Inr \<lparr>target_range = rng, max_threads = threads, delay = d, network = n,
                    total_hosts = num_addresses n,
                    output_base = range_clean rng @ ''-network'',
                    live_hosts = [], active_scans = 0, completed_scans = 0,
                    results_queue = [], fs = files, trace = []\<rparr>))"

subsection \<open>Tool check and discovery\<close>

definition check_nmap_installed :: "env \<Rightarrow> scanner \<Rightarrow> (exn \<times> scanner) + (bool \<times> scanner)" where
  "check_nmap_installed e s =
     (let s1 = emit RunNmapVersion s in
      case nmap_check e of
        VersionOk \<Rightarrow> Inr (True, s1)
      | CalledProcessError \<Rightarrow>
          Inr (False, say ''Error: nmap is not installed or not in PATH'' s1)
      | FileNotFoundError \<Rightarrow>
          Inr (False, say ''Error: nmap is not installed or not in PATH'' s1)
      | CheckOtherError \<Rightarrow> Inl (OtherError, s1)
      | CheckInterrupt \<Rightarrow> Inl (KeyboardInterrupt, s1))"

text \<open>The loop over the lines of the sweep output, appending to \<open>live_hosts\<close>.\<close>

fun collect_hosts :: "string list \<Rightarrow> string list \<Rightarrow> string list" where
  "collect_hosts [] live = live"
| "collect_hosts (line # rest) live =
     (if py_in ''Nmap scan report for'' line then
        (case search_ip line of
           Some ip \<Rightarrow> collect_hosts rest (live @ [ip])
         | None \<Rightarrow> collect_hosts rest live)
      else collect_hosts rest live)"

definition parse_sweep :: "string \<Rightarrow> string list" where
  "parse_sweep out = collect_hosts (split_nl out) []"

definition full_range :: "scanner \<Rightarrow> string list" where
  "full_range s = map str_ip (hosts (network s))"

definition ping_sweep :: "env \<Rightarrow> scanner \<Rightarrow> (exn \<times> scanner) + (string list \<times> scanner)" where
  "ping_sweep e s =
     (let s1 = emit (RunPingSweep (target_range s)) s in
      case sweep e of
        SweepDone out \<Rightarrow> Inr (parse_sweep out, s1)
      | SweepTimeout \<Rightarrow>
          Inr (full_range s,
               say ''[-] Ping sweep timed out, proceeding with full range scan'' s1)
      | SweepFailed \<Rightarrow> Inr (full_range s, say ''[-] Ping sweep failed'' s1)
      | SweepInterrupt \<Rightarrow> Inl (KeyboardInterrupt, s1))"

subsection \<open>One detailed scan\<close>

text \<open>
  The loop of \<open>process_scan_result\<close> over the lines of a probe's output: the flag
  \<open>in_port_section\<close> and the list \<open>open_ports\<close> are its state.
\<close>

fun port_lines :: "string list \<Rightarrow> bool \<Rightarrow> string list \<Rightarrow> string list" where
  "port_lines [] in_port_section open_ports = open_ports"
| "port_lines (line # rest) in_port_section open_ports =
     (if py_in ''PORT'' line \<and> py_in ''STATE'' line then port_lines rest True open_ports
      else if in_port_section \<and> strip line \<noteq> [] then
        (if py_in ''/tcp'' line \<or> py_in ''/udp'' line then
           (let parts = split_ws line in
            if length parts \<ge> 3 \<and> py_in ''open'' (parts ! 1)
            then port_lines rest in_port_section (open_ports @ [parts ! 0])
            else port_lines rest in_port_section open_ports)
         else if startswith ''|'' line then port_lines rest in_port_section open_ports
         else port_lines rest False open_ports)
      else port_lines rest in_port_section open_ports)"

definition open_ports_of :: "string \<Rightarrow> string list" where
  "open_ports_of nmap_output = port_lines (split_nl nmap_output) False []"

text \<open>
  \<open>process_scan_result\<close> reports the open ports it parsed, if any, and puts the pair of
  host and raw output on the result queue in every case.
\<close>

definition process_scan_result :: "string \<Rightarrow> string \<Rightarrow> scanner \<Rightarrow> scanner" where
  "process_scan_result host_ip nmap_output s =
     (let open_ports = open_ports_of nmap_output;
          s1 = (if open_ports \<noteq> []
                then say (''[+] '' @ host_ip @ '' - Open ports: '' @ join '', '' open_ports) s
                else s)
      in s1\<lparr>results_queue := results_queue s1 @ [(host_ip, nmap_output)]\<rparr>)"

text \<open>
  \<open>scan_host\<close> in its three phases.  Entering increments \<open>active_scans\<close> under the
  lock.  The body of the \<open>try\<close> calls the probe; when the call returns, the result is
  recorded if the exit status is 0 and the lower-cased output contains \<open>open\<close>, and the
  worker then calls \<open>time.sleep(delay)\<close>: it sleeps, or the call raises and the handler
  for errors reports the scan as failed, the result staying recorded.  A timeout or
  another error of the probe call leaves the body at once for its handler.  The
  \<open>finally\<close> block decrements \<open>active_scans\<close> and increments \<open>completed_scans\<close> under
  the lock.
\<close>

definition scan_enter :: "scanner \<Rightarrow> scanner" where
  "scan_enter s = s\<lparr>active_scans := active_scans s + 1\<rparr>"

definition scan_body :: "env \<Rightarrow> task \<Rightarrow> scanner \<Rightarrow> scanner" where
  "scan_body e t s =
     (let host_ip = snd t; s1 = emit (RunProbe host_ip) s in
      case probe e t of
        Returned returncode out \<Rightarrow>
          (let s2 = (if returncode = 0 \<and> py_in ''open'' (lower out)
                     then process_scan_result host_ip out s1 else s1)
           in case sleep_time (sleep_limit e) (delay s2) of
                Some d \<Rightarrow> emit (Sleep d) s2
              | None \<Rightarrow> say (''[-] Error scanning '' @ host_ip) s2)
      | ProbeTimeout \<Rightarrow> say (''[-] Scan timeout for '' @ host_ip) s1
      | ProbeFailed \<Rightarrow> say (''[-] Error scanning '' @ host_ip) s1)"

definition scan_cleanup :: "scanner \<Rightarrow> scanner" where
  "scan_cleanup s =
     s\<lparr>active_scans := active_scans s - 1, completed_scans := completed_scans s + 1\<rparr>"

definition scan_host :: "env \<Rightarrow> task \<Rightarrow> scanner \<Rightarrow> scanner" where
  "scan_host e t s = scan_cleanup (scan_body e t (scan_enter s))"

subsection \<open>Saving\<close>

text \<open>The loop that empties the queue: \<open>while not empty: all_results.append(get())\<close>.\<close>

fun drain :: "(string \<times> string) list \<Rightarrow> (string \<times> string) list \<Rightarrow>
    (string \<times> string) list \<times> (string \<times> string) list" where
  "drain [] all_results = (all_results, [])"
| "drain (r # q) all_results = drain q (all_results @ [r])"

definition bar :: string where
  "bar = replicate 60 CHR ''=''"

definition xml_text :: "(string \<times> string) list \<Rightarrow> string" where
  "xml_text all_results =
     ''<?xml version='' @ [dq] @ ''1.0'' @ [dq] @ '' encoding='' @ [dq] @ ''UTF-8'' @ [dq]
       @ ''?>'' @ [nl] @ ''<nmaprun>'' @ [nl] @
     concat (map (\<lambda>(host_ip, output).
        ''  <host ip='' @ [dq] @ host_ip @ [dq] @ ''>'' @ [nl] @
        ''    <output><![CDATA['' @ output @ '']]></output>'' @ [nl] @
        ''  </host>'' @ [nl]) all_results) @
     ''</nmaprun>'' @ [nl]"

definition nmap_text :: "string \<Rightarrow> string \<Rightarrow> (string \<times> string) list \<Rightarrow> string" where
  "nmap_text rng stamp all_results =
     ''# Network scan results for '' @ rng @ [nl] @
     ''# Generated: '' @ stamp @ [nl, nl] @
     concat (map (\<lambda>(host_ip, output).
        bar @ [nl] @ ''Host: '' @ host_ip @ [nl] @ bar @ [nl] @ output @ [nl, nl]) all_results)"

text \<open>The ports of one host for the grep-friendly file.\<close>

fun tcp_lines :: "string list \<Rightarrow> string list \<Rightarrow> string list" where
  "tcp_lines [] ports = ports"
| "tcp_lines (line # rest) ports =
     (if py_in ''/tcp'' line \<and> py_in ''open'' line then
        (case match_tcp_port line of
           Some port \<Rightarrow> tcp_lines rest (ports @ [port])
         | None \<Rightarrow> tcp_lines rest ports)
      else tcp_lines rest ports)"

definition gnmap_ports :: "string \<Rightarrow> string list" where
  "gnmap_ports output = tcp_lines (split_nl output) []"

definition gnmap_entry :: "string \<times> string \<Rightarrow> string" where
  "gnmap_entry r =
     (case r of (host_ip, output) \<Rightarrow>
        (let ports = gnmap_ports output in
         if ports \<noteq> [] then
           ''Host: '' @ host_ip @ '' () Status: Up'' @ [nl] @
           ''Host: '' @ host_ip @ '' () Ports: '' @ join ''/'' ports @ [nl]
         else []))"

definition gnmap_text :: "(string \<times> string) list \<Rightarrow> string" where
  "gnmap_text all_results = concat (map gnmap_entry all_results)"

text \<open>
  \<open>save_results\<close>: the three files are opened and written in turn; a file that cannot be
  opened raises, the handler reports it, and the files after it are not written.
\<close>

definition save_results :: "env \<Rightarrow> scanner \<Rightarrow> scanner" where
  "save_results e s =
     (let all_results = fst (drain (results_queue s) []);
          s0 = s\<lparr>results_queue := snd (drain (results_queue s) [])\<rparr>;
          xml = output_base s @ ''.xml'';
          nmap = output_base s @ ''.nmap'';
          gnmap = output_base s @ ''.gnmap''
      in
      if all_results = [] then say ''[-] No results to save'' s0
      else if \<not> writable e xml then say ''[-] Error saving results'' s0
      else
        (let s1 = s0\<lparr>fs := (fs s0)(xml \<mapsto> xml_text all_results)\<rparr> in
         if \<not> writable e nmap then say ''[-] Error saving results'' s1
         else
           (let s2 = s1\<lparr>fs := (fs s1)(nmap \<mapsto> nmap_text (target_range s) (now e) all_results)\<rparr> in
            if \<not> writable e gnmap then say ''[-] Error saving results'' s2
            else say ''[+] Results saved''
                   (s2\<lparr>fs := (fs s2)(gnmap \<mapsto> gnmap_text all_results)\<rparr>))))"

subsection \<open>The worker pool\<close>

text \<open>
  The pool is the library's thread pool: a queue of submitted tasks and a fixed number
  of workers, \<open>min(max_threads, len(live_hosts))\<close>; asking for no worker or a negative
  number of workers is a \<open>ValueError\<close>.  A worker takes the next task from the queue,
  runs \<open>scan_host\<close> on it, and takes the next one.  Between two workers only the
  lock-protected counter updates and the queue operations are shared, so an execution
  is an interleaving of the phases of the workers: taking a task, entering, the body
  (from the start of the probe to the end of the \<open>try\<close> statement), and the cleanup.
\<close>

datatype wstate =
    Idle
  | Taken task
  | Running task
  | Finishing task

record pool =
  sc :: scanner
  pending :: "task list"
  workers :: "wstate list"

definition pool_create :: "scanner \<Rightarrow> exn + pool" where
  "pool_create s =
     (let max_workers = min (max_threads s) (int (length (live_hosts s))) in
      if max_workers \<le> 0 then Inl ValueError
      else Inr \<lparr>sc = s, pending = enumerate 0 (live_hosts s),
                workers = replicate (nat max_workers) Idle\<rparr>)"

text \<open>One step of worker \<open>i\<close>, if it can make one.\<close>

definition step :: "env \<Rightarrow> nat \<Rightarrow> pool \<Rightarrow> pool option" where
  "step e i p =
     (if i < length (workers p) then
        (case workers p ! i of
           Idle \<Rightarrow>
             (case pending p of
                [] \<Rightarrow> None
              | t # ts \<Rightarrow> Some (p\<lparr>pending := ts, workers := (workers p)[i := Taken t]\<rparr>))
         | Taken t \<Rightarrow>
             Some (p\<lparr>sc := scan_enter (sc p), workers := (workers p)[i := Running t]\<rparr>)
         | Running t \<Rightarrow>
             Some (p\<lparr>sc := scan_body e t (sc p), workers := (workers p)[i := Finishing t]\<rparr>)
         | Finishing t \<Rightarrow>
             Some (p\<lparr>sc := scan_cleanup (sc p), workers := (workers p)[i := Idle]\<rparr>))
      else None)"

text \<open>
  An execution follows a schedule: the list of the workers that move, in order.  A
  worker that cannot move when it is named is skipped.  Every interleaving is the
  execution of some schedule.
\<close>

fun exec :: "env \<Rightarrow> nat list \<Rightarrow> pool \<Rightarrow> pool" where
  "exec e [] p = p"
| "exec e (i # sched) p = exec e sched (case step e i p of Some p' \<Rightarrow> p' | None \<Rightarrow> p)"

text \<open>
  Leaving the \<open>with\<close> block joins the pool: the workers go on until no task is left and
  all of them are idle.  The join is run for as many steps as the work that is left.
\<close>

fun phase_weight :: "wstate \<Rightarrow> nat" where
  "phase_weight Idle = 0"
| "phase_weight (Taken t) = 3"
| "phase_weight (Running t) = 2"
| "phase_weight (Finishing t) = 1"

definition weight :: "pool \<Rightarrow> nat" where
  "weight p = 4 * length (pending p) + sum_list (map phase_weight (workers p))"

definition first_enabled :: "env \<Rightarrow> pool \<Rightarrow> nat option" where
  "first_enabled e p = List.find (\<lambda>i. step e i p \<noteq> None) [0 ..< length (workers p)]"

fun join_steps :: "env \<Rightarrow> nat \<Rightarrow> pool \<Rightarrow> pool" where
  "join_steps e 0 p = p"
| "join_steps e (Suc n) p =
     (case first_enabled e p of
        None \<Rightarrow> p
      | Some i \<Rightarrow> (case step e i p of None \<Rightarrow> p | Some p' \<Rightarrow> join_steps e n p'))"

definition join_pool :: "env \<Rightarrow> pool \<Rightarrow> pool" where
  "join_pool e p = join_steps e (weight p) p"

definition quiescent :: "pool \<Rightarrow> bool" where
  "quiescent p = (pending p = [] \<and> list_all (\<lambda>w. w = Idle) (workers p))"

text \<open>
  The workers whose probe is in flight, the workers inside \<open>scan_host\<close> between the
  increment and the decrement of \<open>active_scans\<close>, and the workers that hold a task.
\<close>

fun is_running :: "wstate \<Rightarrow> bool" where
  "is_running (Running t) = True"
| "is_running w = False"

fun in_scan :: "wstate \<Rightarrow> bool" where
  "in_scan (Running t) = True"
| "in_scan (Finishing t) = True"
| "in_scan w = False"

definition probing :: "pool \<Rightarrow> nat" where
  "probing p = length (filter is_running (workers p))"

definition entered :: "pool \<Rightarrow> nat" where
  "entered p = length (filter in_scan (workers p))"

definition busy :: "pool \<Rightarrow> nat" where
  "busy p = length (filter (\<lambda>w. w \<noteq> Idle) (workers p))"

text \<open>
  The scans of \<open>run_scan\<close>: the pool is created, runs under the schedule of the
  environment and is joined.  The user's interrupt, if it comes, reaches the main thread
  after some steps of the pool.
\<close>

definition run_pool :: "env \<Rightarrow> scanner \<Rightarrow> (exn \<times> scanner) + scanner" where
  "run_pool e s =
     (case pool_create s of
        Inl x \<Rightarrow> Inl (x, s)
      | Inr p0 \<Rightarrow>
          (case interrupt_after e of
             Some k \<Rightarrow> Inl (KeyboardInterrupt, sc (exec e (take k (schedule e)) p0))
           | None \<Rightarrow> Inr (sc (join_pool e (exec e (schedule e) p0)))))"

subsection \<open>The whole run\<close>

definition run_scan :: "env \<Rightarrow> scanner \<Rightarrow> (exn \<times> scanner) + (bool \<times> scanner)" where
  "run_scan e s =
     (case check_nmap_installed e s of
        Inl x \<Rightarrow> Inl x
      | Inr (installed, s1) \<Rightarrow>
          if \<not> installed then Inr (False, s1)
          else
            (case ping_sweep e s1 of
               Inl x \<Rightarrow> Inl x
             | Inr (found, s2) \<Rightarrow>
                 (let s3 = s2\<lparr>live_hosts := found\<rparr> in
                  if live_hosts s3 = [] then Inr (False, say ''[-] No live hosts found'' s3)
                  else
                    (case run_pool e s3 of
                       Inl x \<Rightarrow> Inl x
                     | Inr s4 \<Rightarrow> Inr (True, save_results e s4)))))"

text \<open>
  \<open>main\<close> after the command line has been parsed: the range text with what the library
  made of it, the thread count and the delay.  The result is the exit code of the
  process with the files and the trace it leaves behind.
\<close>

record args =
  arg_range :: string
  arg_parsed :: "(nat \<times> nat) option"
  arg_threads :: int
  arg_delay :: pyfloat

definition main :: "env \<Rightarrow> (string \<rightharpoonup> string) \<Rightarrow> args \<Rightarrow> int \<times> (string \<rightharpoonup> string) \<times> event list" where
  "main e files a =
     (if arg_threads a < 1 \<or> arg_threads a > 200
      then (1, files, [Print ''Error: Thread count must be between 1 and 200''])
      else
        (case NetworkScanner (arg_range a) (arg_parsed a) (arg_threads a) (arg_delay a) files of
           Inl code \<Rightarrow> (code, files, [Print ''Error: Invalid network range''])
         | Inr scanner \<Rightarrow>
             (case run_scan e scanner of
                Inr (success, s) \<Rightarrow> (if success then 0 else 1, fs s, trace s)
              | Inl (KeyboardInterrupt, s) \<Rightarrow>
                  (let s' = save_results e (say ''[!] Scan interrupted by user'' s)
                   in (1, fs s', trace s'))
              | Inl (x, s) \<Rightarrow>
                  (let s' = say ''[-] Unexpected error'' s in (1, fs s', trace s')))))"

definition exit_code :: "int \<times> (string \<rightharpoonup> string) \<times> event list \<Rightarrow> int" where
  "exit_code r = fst r"

definition files_of :: "int \<times> (string \<rightharpoonup> string) \<times> event list \<Rightarrow> (string \<rightharpoonup> string)" where
  "files_of r = fst (snd r)"

definition trace_of :: "int \<times> (string \<rightharpoonup> string) \<times> event list \<Rightarrow> event list" where
  "trace_of r = snd (snd r)"

text \<open>
  What discovery hands to the orchestrator (nothing when the sweep was interrupted), and
  two tests on events used to state what a run did.
\<close>

definition discover :: "env \<Rightarrow> scanner \<Rightarrow> string list" where
  "discover e s = (case ping_sweep e s of Inr (found, s') \<Rightarrow> found | Inl x \<Rightarrow> [])"

fun is_sleep :: "event \<Rightarrow> bool" where
  "is_sleep (Sleep d) = True"
| "is_sleep ev = False"

fun is_tool_scan :: "event \<Rightarrow> bool" where
  "is_tool_scan (RunPingSweep r) = True"
| "is_tool_scan (RunProbe h) = True"
| "is_tool_scan ev = False"

subsection \<open>A small run\<close>

text \<open>
  The range \<open>192.168.1.0/30\<close> with two usable hosts: the sweep reports both, the first
  has one open port and the second none.
\<close>

definition demo_sweep_output :: string where
  "demo_sweep_output =
     ''Starting Nmap'' @ [nl] @
     ''Nmap scan report for 192.168.1.1'' @ [nl] @ ''Host is up.'' @ [nl] @
     ''Nmap scan report for 192.168.1.2'' @ [nl] @ ''Host is up.''"

definition demo_open_output :: string where
  "demo_open_output = ''PORT   STATE SERVICE'' @ [nl] @ ''80/tcp open  http''"

definition demo_closed_output :: string where
  "demo_closed_output = ''All 65535 scanned ports are closed''"

definition demo_env :: env where
  "demo_env =
     \<lparr>nmap_check = VersionOk, sweep = SweepDone demo_sweep_output,
      probe = (\<lambda>t. if snd t = ''192.168.1.1'' then Returned 0 demo_open_output
                    else Returned 0 demo_closed_output),
      writable = (\<lambda>f. True), now = ''2024-01-01 00:00:00'',
      sleep_limit = 9223372036,
      schedule = [0, 1, 0, 1, 1, 0], interrupt_after = None\<rparr>"

definition demo_args :: args where
  "demo_args =
     \<lparr>arg_range = ''192.168.1.0/30'', arg_parsed = Some (3232235776, 30),
      arg_threads = 2, arg_delay = Finite (1 / 10)\<rparr>"

definition demo_scanner :: scanner where
  "demo_scanner =
     \<lparr>target_range = ''192.168.1.0/30'', max_threads = 2, delay = Finite (1 / 10),
      network = \<lparr>network_address = 3232235776, prefixlen = 30\<rparr>,
      total_hosts = 4, output_base = ''192-168-1-0_30-network'',
      live_hosts = [''192.168.1.1'', ''192.168.1.2''],
      active_scans = 0, completed_scans = 0, results_queue = [],
      fs = Map.empty, trace = []\<rparr>"

definition demo_pool :: pool where
  "demo_pool =
     \<lparr>sc = demo_scanner, pending = [(0, ''192.168.1.1''), (1, ''192.168.1.2'')],
      workers = [Idle, Idle]\<rparr>"

text \<open>The range \<open>192.168.1.0/31\<close>: two addresses, no usable host in between.\<close>

definition demo_network31 :: ipv4network where
  "demo_network31 = \<lparr>network_address = 3232235776, prefixlen = 31\<rparr>"

text \<open>
  A probe output with a port that is closed and whose service name contains \<open>open\<close>.
\<close>

definition demo_vpn_output :: string where
  "demo_vpn_output = ''PORT     STATE  SERVICE'' @ [nl] @ ''1194/tcp closed openvpn''"

text \<open>The outcomes of a probe for which \<open>scan_host\<close> records a result.\<close>

definition records_result :: "probe_outcome \<Rightarrow> bool" where
  "records_result r =
     (case r of Returned rc out \<Rightarrow> rc = 0 \<and> py_in ''open'' (lower out) | _ \<Rightarrow> False)"

text \<open>
  The results a task contributes to the queue, the tasks a worker still owes the body
  of \<open>scan_host\<close>, and the results a pool in some state is still to produce.
\<close>

definition result_of :: "env \<Rightarrow> task \<Rightarrow> (string \<times> string) list" where
  "result_of e t =
     (case probe e t of
        Returned rc out \<Rightarrow> if rc = 0 \<and> py_in ''open'' (lower out) then [(snd t, out)] else []
      | _ \<Rightarrow> [])"

fun owed :: "wstate \<Rightarrow> task list" where
  "owed (Taken t) = [t]"
| "owed (Running t) = [t]"
| "owed w = []"

definition due :: "env \<Rightarrow> pool \<Rightarrow> (string \<times> string) multiset" where
  "due e p =
     mset (concat (map (result_of e) (pending p))) +
     sum_list (map (\<lambda>w. mset (concat (map (result_of e) (owed w)))) (workers p))"

section \<open>Properties\<close>

subsection \<open>The result queue and saving\<close>

lemma drain_eq: "drain q acc = (acc @ q, [])"
  by (induction q arbitrary: acc) simp_all

lemma save_results_queue: "results_queue (save_results e s) = []"
  by (simp add: save_results_def Let_def drain_eq say_def)

lemma save_results_empty:
  "results_queue s = [] \<Longrightarrow> save_results e s = say ''[-] No results to save'' s"
  by (simp add: save_results_def Let_def drain_eq say_def)

lemma process_scan_result_queue:
  "results_queue (process_scan_result h out s) = results_queue s @ [(h, out)]"
  by (simp add: process_scan_result_def Let_def say_def)

lemma process_scan_result_counters:
  "active_scans (process_scan_result h out s) = active_scans s"
  "completed_scans (process_scan_result h out s) = completed_scans s"
  "delay (process_scan_result h out s) = delay s"
  by (simp_all add: process_scan_result_def Let_def say_def)

lemma scan_body_counters:
  "active_scans (scan_body e t s) = active_scans s"
  "completed_scans (scan_body e t s) = completed_scans s"
  by (simp_all add: scan_body_def Let_def say_def emit_def process_scan_result_counters
      split: probe_outcome.split option.split)

lemma scan_body_queue:
  "results_queue (scan_body e t s) =
     (case probe e t of
        Returned rc out \<Rightarrow>
          if rc = 0 \<and> py_in ''open'' (lower out) then results_queue s @ [(snd t, out)]
          else results_queue s
      | _ \<Rightarrow> results_queue s)"
  by (auto simp: scan_body_def Let_def say_def emit_def process_scan_result_queue
      process_scan_result_counters split: probe_outcome.split option.split)

subsection \<open>Steps of the pool\<close>

lemma length_filter_update:
  "i < length xs \<Longrightarrow>
   length (filter P (xs[i := y])) + (if P (xs ! i) then 1 else 0) =
   length (filter P xs) + (if P y then 1 else 0)"
proof (induction xs arbitrary: i)
  case Nil
  then show ?case by simp
next
  case (Cons x xs)
  show ?case
  proof (cases i)
    case 0
    then show ?thesis by simp
  next
    case (Suc j)
    with Cons.prems have "j < length xs" by simp
    from Cons.IH [OF this] Suc show ?thesis by simp
  qed
qed

lemma sum_list_map_update:
  "i < length xs \<Longrightarrow>
   sum_list (map f (xs[i := y])) + f (xs ! i) = sum_list (map f xs) + (f y :: nat)"
proof (induction xs arbitrary: i)
  case Nil
  then show ?case by simp
next
  case (Cons x xs)
  show ?case
  proof (cases i)
    case 0
    then show ?thesis by simp
  next
    case (Suc j)
    with Cons.prems have "j < length xs" by simp
    from Cons.IH [OF this] Suc show ?thesis by simp
  qed
qed

lemma step_cases:
  assumes "step e i p = Some p'"
  obtains
    (take) t ts where "i < length (workers p)" "workers p ! i = Idle" "pending p = t # ts"
      "p' = p\<lparr>pending := ts, workers := (workers p)[i := Taken t]\<rparr>"
  | (enter) t where "i < length (workers p)" "workers p ! i = Taken t"
      "p' = p\<lparr>sc := scan_enter (sc p), workers := (workers p)[i := Running t]\<rparr>"
  | (body) t where "i < length (workers p)" "workers p ! i = Running t"
      "p' = p\<lparr>sc := scan_body e t (sc p), workers := (workers p)[i := Finishing t]\<rparr>"
  | (cleanup) t where "i < length (workers p)" "workers p ! i = Finishing t"
      "p' = p\<lparr>sc := scan_cleanup (sc p), workers := (workers p)[i := Idle]\<rparr>"
  using assms by (auto simp: step_def split: if_splits wstate.splits list.splits)

lemma step_workers: "step e i p = Some p' \<Longrightarrow> length (workers p') = length (workers p)"
  by (erule step_cases) simp_all

text \<open>What one step does to the measures of the pool, for a predicate on worker states.\<close>

lemma step_count:
  assumes "step e i p = Some p'"
  shows "length (filter P (workers p')) + (if P (workers p ! i) then 1 else 0) =
         length (filter P (workers p)) + (if P (workers p' ! i) then 1 else 0)"
proof -
  from assms have i: "i < length (workers p)"
    by (elim step_cases)
  from assms obtain y where y: "workers p' = (workers p)[i := y]"
    by (elim step_cases) simp_all
  with i have "workers p' ! i = y"
    by simp
  with length_filter_update [OF i, of P y] y show ?thesis
    by simp
qed

lemma step_weight: "step e i p = Some p' \<Longrightarrow> Suc (weight p') = weight p"
proof (erule step_cases)
  fix t ts assume a: "i < length (workers p)" "workers p ! i = Idle" "pending p = t # ts"
    "p' = p\<lparr>pending := ts, workers := (workers p)[i := Taken t]\<rparr>"
  from sum_list_map_update [OF a(1), of phase_weight "Taken t"] a
  show ?thesis by (simp add: weight_def)
next
  fix t assume a: "i < length (workers p)" "workers p ! i = Taken t"
      "p' = p\<lparr>sc := scan_enter (sc p), workers := (workers p)[i := Running t]\<rparr>"
  from sum_list_map_update [OF a(1), of phase_weight "Running t"] a
  show ?thesis by (simp add: weight_def)
next
  fix t assume a: "i < length (workers p)" "workers p ! i = Running t"
      "p' = p\<lparr>sc := scan_body e t (sc p), workers := (workers p)[i := Finishing t]\<rparr>"
  from sum_list_map_update [OF a(1), of phase_weight "Finishing t"] a
  show ?thesis by (simp add: weight_def)
next
  fix t assume a: "i < length (workers p)" "workers p ! i = Finishing t"
      "p' = p\<lparr>sc := scan_cleanup (sc p), workers := (workers p)[i := Idle]\<rparr>"
  from sum_list_map_update [OF a(1), of phase_weight "Idle"] a
  show ?thesis by (simp add: weight_def)
qed

lemma step_active:
  assumes "step e i p = Some p'"
  shows "active_scans (sc p') - int (entered p') = active_scans (sc p) - int (entered p)"
  using assms step_count [OF assms, of in_scan]
  by (elim step_cases)
     (simp_all add: entered_def scan_enter_def scan_cleanup_def scan_body_counters)

lemma step_completed:
  assumes "step e i p = Some p'"
  shows "completed_scans (sc p') + int (length (pending p')) + int (busy p') =
         completed_scans (sc p) + int (length (pending p)) + int (busy p)"
  using assms step_count [OF assms, of "\<lambda>w. w \<noteq> Idle"]
  by (elim step_cases)
     (simp_all add: busy_def scan_enter_def scan_cleanup_def scan_body_counters)

lemma step_completed_mono:
  "step e i p = Some p' \<Longrightarrow> completed_scans (sc p) \<le> completed_scans (sc p')"
  by (erule step_cases)
     (simp_all add: scan_enter_def scan_cleanup_def scan_body_counters)

lemma exec_append: "exec e (a @ b) p = exec e b (exec e a p)"
  by (induction a arbitrary: p) simp_all

lemma exec_workers: "length (workers (exec e sched p)) = length (workers p)"
  by (induction sched arbitrary: p) (simp_all add: step_workers split: option.split)

lemma exec_active:
  "active_scans (sc (exec e sched p)) - int (entered (exec e sched p)) =
   active_scans (sc p) - int (entered p)"
  by (induction sched arbitrary: p) (simp_all add: step_active split: option.split)

lemma exec_completed:
  "completed_scans (sc (exec e sched p)) + int (length (pending (exec e sched p))) +
     int (busy (exec e sched p)) =
   completed_scans (sc p) + int (length (pending p)) + int (busy p)"
  by (induction sched arbitrary: p) (simp_all add: step_completed split: option.split)

lemma exec_completed_mono:
  "completed_scans (sc p) \<le> completed_scans (sc (exec e sched p))"
proof (induction sched arbitrary: p)
  case Nil
  show ?case by simp
next
  case (Cons i sched)
  show ?case
  proof (cases "step e i p")
    case None
    with Cons.IH [of p] show ?thesis by simp
  next
    case (Some p')
    with Cons.IH [of p'] step_completed_mono [OF Some] show ?thesis by simp
  qed
qed

lemma filter_le_length: "length (filter P xs) \<le> length xs"
  by simp

lemma probing_le_entered: "probing p \<le> entered p"
proof -
  have "\<And>ws. length (filter is_running ws) \<le> length (filter in_scan ws)"
  proof -
    fix ws :: "wstate list"
    show "length (filter is_running ws) \<le> length (filter in_scan ws)"
    proof (induction ws)
      case Nil
      show ?case by simp
    next
      case (Cons w ws)
      then show ?case by (cases w) simp_all
    qed
  qed
  then show ?thesis by (simp add: probing_def entered_def)
qed

lemma quiescent_busy: "quiescent p \<Longrightarrow> busy p = 0 \<and> pending p = []"
  by (auto simp: quiescent_def busy_def list_all_iff filter_empty_conv)

lemma weight_0_quiescent: "weight p = 0 \<Longrightarrow> quiescent p"
proof -
  assume "weight p = 0"
  then have pe: "pending p = []" and all: "\<forall>w \<in> set (workers p). phase_weight w = 0"
    by (auto simp: weight_def)
  have "\<And>w. phase_weight w = 0 \<Longrightarrow> w = Idle"
    by (case_tac w) simp_all
  with all have "\<forall>w \<in> set (workers p). w = Idle" by blast
  with pe show ?thesis by (simp add: quiescent_def list_all_iff)
qed

lemma step_None_iff:
  "i < length (workers p) \<Longrightarrow>
   step e i p = None \<longleftrightarrow> workers p ! i = Idle \<and> pending p = []"
  by (auto simp: step_def split: wstate.splits list.splits)

lemma first_enabled_None:
  assumes "first_enabled e p = None" "workers p \<noteq> []"
  shows "quiescent p"
proof -
  from assms(1) have all: "\<forall>i < length (workers p). step e i p = None"
    by (auto simp: first_enabled_def find_None_iff)
  from assms(2) have "0 < length (workers p)" by simp
  with all have "step e 0 p = None" by blast
  with \<open>0 < length (workers p)\<close> have pe: "pending p = []"
    by (simp add: step_None_iff)
  have "\<forall>w \<in> set (workers p). w = Idle"
  proof
    fix w assume "w \<in> set (workers p)"
    then obtain i where i: "i < length (workers p)" "workers p ! i = w"
      by (auto simp: in_set_conv_nth)
    with all have "step e i p = None" by blast
    with i show "w = Idle" by (simp add: step_None_iff)
  qed
  with pe show ?thesis by (simp add: quiescent_def list_all_iff)
qed

lemma first_enabled_Some:
  "first_enabled e p = Some i \<Longrightarrow> \<exists>p'. step e i p = Some p'"
  by (auto simp: first_enabled_def find_Some_iff)

lemma join_steps_quiescent:
  "weight p \<le> n \<Longrightarrow> workers p \<noteq> [] \<Longrightarrow> quiescent (join_steps e n p)"
proof (induction n arbitrary: p)
  case 0
  then show ?case by (simp add: weight_0_quiescent)
next
  case (Suc n)
  show ?case
  proof (cases "first_enabled e p")
    case None
    with Suc.prems show ?thesis by (simp add: first_enabled_None)
  next
    case (Some i)
    then obtain p' where p': "step e i p = Some p'"
      using first_enabled_Some by blast
    from step_weight [OF p'] Suc.prems have "weight p' \<le> n" by simp
    moreover from step_workers [OF p'] Suc.prems have "workers p' \<noteq> []" by auto
    ultimately have "quiescent (join_steps e n p')" by (rule Suc.IH)
    with Some p' show ?thesis by simp
  qed
qed

lemma join_steps_exec: "\<exists>sched. join_steps e n p = exec e sched p"
proof (induction n arbitrary: p)
  case 0
  have "join_steps e 0 p = exec e [] p" by simp
  then show ?case by blast
next
  case (Suc n)
  show ?case
  proof (cases "first_enabled e p")
    case None
    then have "join_steps e (Suc n) p = exec e [] p" by simp
    then show ?thesis by blast
  next
    case (Some i)
    then obtain p' where p': "step e i p = Some p'"
      using first_enabled_Some by blast
    from Suc.IH [of p'] obtain sched where "join_steps e n p' = exec e sched p'" by blast
    with Some p' have "join_steps e (Suc n) p = exec e (i # sched) p" by simp
    then show ?thesis by blast
  qed
qed

lemma pool_create_Inr:
  assumes "pool_create s = Inr p0"
  shows "sc p0 = s" "pending p0 = enumerate 0 (live_hosts s)"
    "workers p0 = replicate (nat (min (max_threads s) (int (length (live_hosts s))))) Idle"
    "0 < min (max_threads s) (int (length (live_hosts s)))"
  using assms by (auto simp: pool_create_def Let_def split: if_splits)

lemma pool_create_measures:
  assumes "pool_create s = Inr p0"
  shows "entered p0 = 0" "busy p0 = 0" "probing p0 = 0"
    "length (pending p0) = length (live_hosts s)"
    "int (length (workers p0)) = min (max_threads s) (int (length (live_hosts s)))"
    "workers p0 \<noteq> []"
proof -
  let ?m = "min (max_threads s) (int (length (live_hosts s)))"
  note c = pool_create_Inr [OF assms]
  from c(3) show "entered p0 = 0" by (simp add: entered_def)
  from c(3) show "busy p0 = 0" by (simp add: busy_def)
  from c(3) show "probing p0 = 0" by (simp add: probing_def)
  from c(2) show "length (pending p0) = length (live_hosts s)" by (simp add: enumerate_eq_zip)
  from c(4) have "int (nat ?m) = ?m" by simp
  with c(3) show "int (length (workers p0)) = ?m" by simp
  from c(3) have "length (workers p0) = nat ?m" by (simp only: length_replicate)
  moreover from c(4) have "0 < nat ?m" by (simp only: zero_less_nat_eq)
  ultimately have "0 < length (workers p0)" by (simp only:)
  then show "workers p0 \<noteq> []" by simp
qed

text \<open>The results of a whole run, as a multiset: the order is the order of completion.\<close>

lemma sum_list_update_gen:
  "i < length xs \<Longrightarrow>
   sum_list (map f (xs[i := y])) + f (xs ! i) =
   sum_list (map f xs) + (f y :: 'a :: comm_monoid_add)"
proof (induction xs arbitrary: i)
  case Nil
  then show ?case by simp
next
  case (Cons x xs)
  show ?case
  proof (cases i)
    case 0
    then show ?thesis by (simp add: ac_simps)
  next
    case (Suc j)
    with Cons.prems have "j < length xs" by simp
    from Cons.IH [OF this] Suc show ?thesis by (simp add: ac_simps)
  qed
qed

lemma scan_body_result:
  "results_queue (scan_body e t s) = results_queue s @ result_of e t"
  by (simp add: scan_body_queue result_of_def split: probe_outcome.split)

lemma step_due:
  assumes "step e i p = Some p'"
  shows "mset (results_queue (sc p')) + due e p' = mset (results_queue (sc p)) + due e p"
  using assms
proof (cases rule: step_cases)
  case (take t ts)
  from sum_list_update_gen [OF take(1),
      of "\<lambda>w. mset (concat (map (result_of e) (owed w)))" "Taken t"] take
  show ?thesis by (simp add: due_def ac_simps)
next
  case (enter t)
  from sum_list_update_gen [OF enter(1),
      of "\<lambda>w. mset (concat (map (result_of e) (owed w)))" "Running t"] enter
  show ?thesis by (simp add: due_def scan_enter_def)
next
  case (body t)
  from sum_list_update_gen [OF body(1),
      of "\<lambda>w. mset (concat (map (result_of e) (owed w)))" "Finishing t"] body
  show ?thesis by (simp add: due_def scan_body_result ac_simps)
next
  case (cleanup t)
  from sum_list_update_gen [OF cleanup(1),
      of "\<lambda>w. mset (concat (map (result_of e) (owed w)))" "Idle"] cleanup
  show ?thesis by (simp add: due_def scan_cleanup_def)
qed

lemma exec_due:
  "mset (results_queue (sc (exec e sched p))) + due e (exec e sched p) =
   mset (results_queue (sc p)) + due e p"
  by (induction sched arbitrary: p) (simp_all add: step_due split: option.split)

lemma idle_owe_nothing:
  "\<forall>w \<in> set ws. w = Idle \<Longrightarrow>
   sum_list (map (\<lambda>w. mset (concat (map (result_of e) (owed w)))) ws) = {#}"
  by (induction ws) simp_all

lemma quiescent_due: "quiescent p \<Longrightarrow> due e p = {#}"
  by (simp add: due_def quiescent_def list_all_iff idle_owe_nothing)

lemma pool_create_due:
  assumes "pool_create s = Inr p0"
  shows "due e p0 = mset (concat (map (result_of e) (enumerate 0 (live_hosts s))))"
proof -
  note c = pool_create_Inr [OF assms]
  have "\<And>n. sum_list (map (\<lambda>w. mset (concat (map (result_of e) (owed w)))) (replicate n Idle)) =
        ({#} :: (string \<times> string) multiset)"
    by (induct_tac n) simp_all
  with c show ?thesis by (simp add: due_def)
qed

lemma joined_results:
  assumes "pool_create s = Inr p0"
  shows "mset (results_queue (sc (join_pool e (exec e sched p0)))) =
         mset (results_queue s @ concat (map (result_of e) (enumerate 0 (live_hosts s))))"
proof -
  let ?p = "exec e sched p0"
  note m = pool_create_measures [OF assms]
  from m(6) have "workers ?p \<noteq> []"
    using exec_workers [of e sched p0] by (metis length_0_conv)
  then have q: "quiescent (join_pool e ?p)"
    by (simp add: join_pool_def join_steps_quiescent)
  obtain later where "join_pool e ?p = exec e later ?p"
    using join_steps_exec [of e "weight ?p" ?p] by (auto simp: join_pool_def)
  then have eq: "join_pool e ?p = exec e (sched @ later) p0"
    by (simp add: exec_append)
  from exec_due [of e "sched @ later" p0] quiescent_due [OF q, of e] eq
  have "mset (results_queue (sc (join_pool e ?p))) = mset (results_queue (sc p0)) + due e p0"
    by simp
  with pool_create_due [OF assms, of e] pool_create_Inr(1) [OF assms]
  show ?thesis by simp
qed

lemma demo_pool_create: "pool_create demo_scanner = Inr demo_pool"
  by (simp add: pool_create_def demo_scanner_def demo_pool_def Let_def enumerate_eq_zip upt_rec
      numeral_2_eq_2)

subsection \<open>Claims about single scans, the queue and the pool\<close>

text \<open>
  Claim C8.  Draining the result queue delivers every queued result once and leaves the
  queue empty, so a second drain delivers nothing; \<open>save_results\<close> always leaves the
  queue empty, and saving a second time changes no file.  When the queue is empty,
  \<open>save_results\<close> writes no file and only reports that there is nothing to save: it
  returns normally.
\<close>

theorem drain_twice_and_nothing_to_save:
  "fst (drain q []) = q \<and>
   fst (drain (snd (drain q [])) []) = [] \<and>
   results_queue (save_results e s) = [] \<and>
   fs (save_results e (save_results e s)) = fs (save_results e s) \<and>
   (results_queue s = [] \<longrightarrow>
      fs (save_results e s) = fs s \<and>
      trace (save_results e s) = trace s @ [Print ''[-] No results to save''])"
  by (simp add: drain_eq save_results_queue save_results_empty say_def)

theorem drain_twice_and_nothing_to_save_witness:
  "results_queue (demo_scanner\<lparr>live_hosts := []\<rparr>) = [] \<and>
   fs (save_results demo_env (demo_scanner\<lparr>live_hosts := []\<rparr>)) = Map.empty \<and>
   trace (save_results demo_env (demo_scanner\<lparr>live_hosts := []\<rparr>)) =
     [Print ''[-] No results to save'']"
  using drain_twice_and_nothing_to_save [of "[]" demo_env "demo_scanner\<lparr>live_hosts := []\<rparr>"]
  by (simp add: demo_scanner_def)

text \<open>
  Claim C2.  For every task and every outcome of its probe: a probe that returns with
  status \<open>rc\<close> and output \<open>out\<close> appends the pair of host and output to the result
  queue exactly when \<open>rc = 0\<close> and the lower-cased output contains \<open>open\<close>, and
  otherwise leaves the queue as it was; a timeout or an error of the call leaves the
  queue as it was.  In every case the completed counter grows by one.  For a whole run
  of the pool, under every schedule, the queue holds in the end what it held before and,
  for each dispatched task whose probe returned with status 0 and an open indication,
  the pair of its host and output once, and nothing else.
\<close>

theorem result_forwarded_iff_open:
  "(probe e t = Returned rc out \<longrightarrow>
      results_queue (scan_host e t s) =
        (if rc = 0 \<and> py_in ''open'' (lower out) then results_queue s @ [(snd t, out)]
         else results_queue s)) \<and>
   (probe e t = ProbeTimeout \<or> probe e t = ProbeFailed \<longrightarrow>
      results_queue (scan_host e t s) = results_queue s) \<and>
   completed_scans (scan_host e t s) = completed_scans s + 1 \<and>
   (pool_create s = Inr p0 \<longrightarrow>
      mset (results_queue (sc (join_pool e (exec e sched p0)))) =
        mset (results_queue s @ concat (map (result_of e) (enumerate 0 (live_hosts s)))))"
  by (auto simp: scan_host_def scan_cleanup_def scan_enter_def scan_body_queue scan_body_counters
      joined_results)

lemma demo_closed_no_open: "\<not> py_in ''open'' (lower demo_closed_output)"
  by code_simp

lemma demo_open_has_open: "py_in ''open'' (lower demo_open_output)"
  by code_simp

theorem result_forwarded_iff_open_witness:
  "probe demo_env (1, ''192.168.1.2'') = Returned 0 demo_closed_output \<and>
   results_queue (scan_host demo_env (1, ''192.168.1.2'') demo_scanner) = [] \<and>
   completed_scans (scan_host demo_env (1, ''192.168.1.2'') demo_scanner) = 1 \<and>
   probe demo_env (0, ''192.168.1.1'') = Returned 0 demo_open_output \<and>
   results_queue (scan_host demo_env (0, ''192.168.1.1'') demo_scanner) =
     [(''192.168.1.1'', demo_open_output)] \<and>
   pool_create demo_scanner = Inr demo_pool \<and>
   mset (results_queue (sc (join_pool demo_env (exec demo_env [0, 1, 0] demo_pool)))) =
     {#(''192.168.1.1'', demo_open_output)#}"
proof -
  have p2: "probe demo_env (1, ''192.168.1.2'') = Returned 0 demo_closed_output"
    by (simp add: demo_env_def)
  have p1: "probe demo_env (0, ''192.168.1.1'') = Returned 0 demo_open_output"
    by (simp add: demo_env_def)
  have q: "results_queue demo_scanner = []" "completed_scans demo_scanner = 0"
    by (simp_all add: demo_scanner_def)
  have r: "concat (map (result_of demo_env) (enumerate 0 (live_hosts demo_scanner))) =
      [(''192.168.1.1'', demo_open_output)]"
    using p1 p2 demo_closed_no_open demo_open_has_open
    by (simp add: result_of_def demo_scanner_def enumerate_eq_zip upt_rec)
  from result_forwarded_iff_open
         [of demo_env "(1, ''192.168.1.2'')" 0 demo_closed_output demo_scanner demo_pool "[0, 1, 0]"]
       result_forwarded_iff_open
         [of demo_env "(0, ''192.168.1.1'')" 0 demo_open_output demo_scanner demo_pool "[0, 1, 0]"]
       p1 p2 q r demo_closed_no_open demo_open_has_open demo_pool_create
  show ?thesis by simp
qed

text \<open>
  Claim C3.  For a pool created for the live hosts of \<open>s\<close>, under every schedule and
  every assignment of probe outcomes: the join reaches a state where no task is pending
  and every worker is idle, and there the completed counter has grown by exactly the
  number of dispatched hosts; the same holds in any state of an execution where the pool
  has come to rest, and for the result of \<open>run_pool\<close> when the run is not interrupted.
  One \<open>scan_host\<close>, whatever its probe does, increments the completed counter and leaves
  the active counter as it found it.
\<close>

theorem completed_equals_dispatched:
  assumes "pool_create s = Inr p0"
  shows "quiescent (join_pool e (exec e sched p0)) \<and>
         completed_scans (sc (join_pool e (exec e sched p0))) =
           completed_scans s + int (length (live_hosts s)) \<and>
         (quiescent (exec e sched p0) \<longrightarrow>
            completed_scans (sc (exec e sched p0)) =
              completed_scans s + int (length (live_hosts s))) \<and>
         (interrupt_after e = None \<longrightarrow>
            (\<exists>s'. run_pool e s = Inr s' \<and>
                  completed_scans s' = completed_scans s + int (length (live_hosts s)))) \<and>
         completed_scans (scan_host e t s) = completed_scans s + 1 \<and>
         active_scans (scan_host e t s) = active_scans s"
proof -
  note m = pool_create_measures [OF assms]
  note c = pool_create_Inr [OF assms]
  have total: "\<And>sch. quiescent (exec e sch p0) \<Longrightarrow>
      completed_scans (sc (exec e sch p0)) = completed_scans s + int (length (live_hosts s))"
  proof -
    fix sch assume "quiescent (exec e sch p0)"
    then have "busy (exec e sch p0) = 0" "pending (exec e sch p0) = []"
      by (simp_all add: quiescent_busy)
    with exec_completed [of e sch p0] m c show
      "completed_scans (sc (exec e sch p0)) = completed_scans s + int (length (live_hosts s))"
      by simp
  qed
  have joined: "\<And>sch. quiescent (join_pool e (exec e sch p0)) \<and>
      completed_scans (sc (join_pool e (exec e sch p0))) =
        completed_scans s + int (length (live_hosts s))"
  proof -
    fix sch
    let ?p = "exec e sch p0"
    from m(6) have "workers ?p \<noteq> []"
      using exec_workers [of e sch p0] by (metis length_0_conv)
    then have q: "quiescent (join_pool e ?p)"
      by (simp add: join_pool_def join_steps_quiescent)
    obtain later where "join_pool e ?p = exec e later ?p"
      using join_steps_exec [of e "weight ?p" ?p] by (auto simp: join_pool_def)
    then have eq: "join_pool e ?p = exec e (sch @ later) p0"
      by (simp add: exec_append)
    with q total [of "sch @ later"]
    show "quiescent (join_pool e ?p) \<and>
      completed_scans (sc (join_pool e ?p)) = completed_scans s + int (length (live_hosts s))"
      by simp
  qed
  have run: "interrupt_after e = None \<longrightarrow>
      (\<exists>s'. run_pool e s = Inr s' \<and>
            completed_scans s' = completed_scans s + int (length (live_hosts s)))"
    using joined [of "schedule e"] assms by (simp add: run_pool_def)
  have one: "completed_scans (scan_host e t s) = completed_scans s + 1 \<and>
         active_scans (scan_host e t s) = active_scans s"
    by (simp add: scan_host_def scan_cleanup_def scan_enter_def scan_body_counters)
  from joined [of sched] total [of sched] run one show ?thesis by blast
qed

theorem completed_equals_dispatched_witness:
  "pool_create demo_scanner = Inr demo_pool \<and>
   quiescent (join_pool demo_env (exec demo_env [0, 1, 0] demo_pool)) \<and>
   completed_scans (sc (join_pool demo_env (exec demo_env [0, 1, 0] demo_pool))) = 2 \<and>
   interrupt_after demo_env = None \<and>
   completed_scans (scan_host demo_env (0, ''192.168.1.1'') demo_scanner) = 1"
  using completed_equals_dispatched [OF demo_pool_create, of demo_env "[0, 1, 0]" "(0, ''192.168.1.1'')"]
    demo_pool_create
  by (simp add: demo_scanner_def demo_env_def)

text \<open>
  Claim C4.  For a pool created for a scanner whose active counter is 0, with limit
  \<open>L = max_threads s\<close> and \<open>H = length (live_hosts s)\<close> hosts: in every state an
  execution can reach, the active counter lies between 0 and \<open>min L H\<close>, at most
  \<open>min L H\<close> probes are in flight, and the completed counter never decreases along the
  execution.  The states of the join are states of an execution as well.
\<close>

theorem active_bounded_completed_monotone:
  assumes "pool_create s = Inr p0" and "active_scans s = 0"
  shows "0 \<le> active_scans (sc (exec e sched p0)) \<and>
         active_scans (sc (exec e sched p0)) \<le> min (max_threads s) (int (length (live_hosts s))) \<and>
         int (probing (exec e sched p0)) \<le> min (max_threads s) (int (length (live_hosts s))) \<and>
         completed_scans (sc (exec e sched p0)) \<le> completed_scans (sc (exec e (sched @ later) p0)) \<and>
         (\<exists>rest. join_pool e (exec e sched p0) = exec e (sched @ rest) p0)"
proof -
  let ?p = "exec e sched p0"
  note m = pool_create_measures [OF assms(1)]
  note c = pool_create_Inr [OF assms(1)]
  from exec_active [of e sched p0] m(1) c(1) assms(2)
  have act: "active_scans (sc ?p) = int (entered ?p)" by simp
  have "entered ?p \<le> length (workers ?p)"
    by (simp add: entered_def)
  then have "int (entered ?p) \<le> int (length (workers p0))"
    by (simp add: exec_workers)
  then have ent: "int (entered ?p) \<le> min (max_threads s) (int (length (live_hosts s)))"
    unfolding m(5) .
  have pr: "int (probing ?p) \<le> int (entered ?p)"
    using probing_le_entered [of ?p] by simp
  have mono: "completed_scans (sc ?p) \<le> completed_scans (sc (exec e (sched @ later) p0))"
    using exec_completed_mono [of ?p e later] by (simp add: exec_append)
  obtain rest where "join_pool e ?p = exec e rest ?p"
    using join_steps_exec [of e "weight ?p" ?p] by (auto simp: join_pool_def)
  then have "join_pool e ?p = exec e (sched @ rest) p0"
    by (simp add: exec_append)
  then have ex: "\<exists>rest. join_pool e ?p = exec e (sched @ rest) p0" by blast
  from act ent pr mono ex show ?thesis by simp
qed

lemma demo_exec_3:
  "exec demo_env [0, 1, 0, 1] demo_pool =
     \<lparr>sc = demo_scanner\<lparr>active_scans := 2\<rparr>, pending = [],
      workers = [Running (0, ''192.168.1.1''), Running (1, ''192.168.1.2'')]\<rparr>"
  by (simp add: demo_pool_def demo_scanner_def step_def scan_enter_def)

theorem active_bounded_completed_monotone_witness:
  "pool_create demo_scanner = Inr demo_pool \<and> active_scans demo_scanner = 0 \<and>
   active_scans (sc (exec demo_env [0, 1, 0, 1] demo_pool)) = 2 \<and>
   probing (exec demo_env [0, 1, 0, 1] demo_pool) = 2 \<and>
   min (max_threads demo_scanner) (int (length (live_hosts demo_scanner))) = 2 \<and>
   0 \<le> completed_scans (sc (exec demo_env ([0, 1, 0, 1] @ [0, 0]) demo_pool))"
proof -
  have a: "active_scans demo_scanner = 0" by (simp add: demo_scanner_def)
  have x: "active_scans (sc (exec demo_env [0, 1, 0, 1] demo_pool)) = 2"
    "probing (exec demo_env [0, 1, 0, 1] demo_pool) = 2"
    unfolding demo_exec_3 by (simp_all add: probing_def)
  have y: "min (max_threads demo_scanner) (int (length (live_hosts demo_scanner))) = 2"
    by (simp add: demo_scanner_def)
  have z: "0 \<le> completed_scans (sc (exec demo_env [0, 1, 0, 1] demo_pool))"
    unfolding demo_exec_3 by (simp add: demo_scanner_def)
  from active_bounded_completed_monotone
         [OF demo_pool_create a, of demo_env "[0, 1, 0, 1]" "[0, 0]"] z
  have "0 \<le> completed_scans (sc (exec demo_env ([0, 1, 0, 1] @ [0, 0]) demo_pool))"
    by linarith
  with demo_pool_create a x y show ?thesis by blast
qed

lemma process_scan_result_sleeps:
  "filter is_sleep (trace (process_scan_result h out s)) = filter is_sleep (trace s)"
  by (simp add: process_scan_result_def Let_def say_def)

lemma scan_host_sleeps:
  "filter is_sleep (trace (scan_host e t s)) =
     filter is_sleep (trace s) @
       (case probe e t of
          Returned rc out \<Rightarrow>
            (case sleep_time (sleep_limit e) (delay s) of Some d \<Rightarrow> [Sleep d] | None \<Rightarrow> [])
        | ProbeTimeout \<Rightarrow> []
        | ProbeFailed \<Rightarrow> [])"
  by (simp add: scan_host_def scan_cleanup_def scan_enter_def scan_body_def Let_def emit_def
      say_def process_scan_result_sleeps process_scan_result_counters
      split: probe_outcome.split option.split)

text \<open>
  Claim C5, as the code has it.  The sleep is the last statement of the \<open>try\<close> body, so
  it is reached exactly when the probe call returns (with any exit status, with or
  without an open indication): then, for a delay that is a finite, non-negative number
  within what the platform's clock accepts, the worker sleeps once, for that delay.
  After a timeout or another error of the probe call the worker does not sleep.
\<close>

theorem sleep_only_after_returned_probe:
  "(probe e t = Returned rc out \<and> delay s = Finite r \<and> 0 \<le> r \<and> r \<le> sleep_limit e \<longrightarrow>
      filter is_sleep (trace (scan_host e t s)) = filter is_sleep (trace s) @ [Sleep r]) \<and>
   (probe e t = ProbeTimeout \<or> probe e t = ProbeFailed \<longrightarrow>
      filter is_sleep (trace (scan_host e t s)) = filter is_sleep (trace s))"
  by (auto simp: scan_host_sleeps sleep_time_def)

theorem sleep_only_after_returned_probe_witness:
  "probe demo_env (1, ''192.168.1.2'') = Returned 0 demo_closed_output \<and>
   delay demo_scanner = Finite (1 / 10) \<and> (0::real) \<le> 1 / 10 \<and>
   1 / 10 \<le> sleep_limit demo_env \<and>
   filter is_sleep (trace (scan_host demo_env (1, ''192.168.1.2'') demo_scanner)) =
     [Sleep (1 / 10)]"
proof -
  have p: "probe demo_env (1, ''192.168.1.2'') = Returned 0 demo_closed_output"
    by (simp add: demo_env_def)
  have d: "delay demo_scanner = Finite (1 / 10)" "trace demo_scanner = []"
    by (simp_all add: demo_scanner_def)
  have l: "1 / 10 \<le> sleep_limit demo_env"
    by (simp add: demo_env_def)
  from sleep_only_after_returned_probe
         [of demo_env "(1, ''192.168.1.2'')" 0 demo_closed_output demo_scanner "1 / 10"]
       p d l
  show ?thesis by simp
qed

text \<open>
  Claim C5 as stated fails: a scan whose probe times out leaves a trace without any
  sleep.
\<close>

theorem no_sleep_after_timeout_counterexample:
  "trace (scan_host (demo_env\<lparr>probe := (\<lambda>t. ProbeTimeout)\<rparr>) (0, ''192.168.1.1'') demo_scanner) =
     [RunProbe ''192.168.1.1'', Print ''[-] Scan timeout for 192.168.1.1''] \<and>
   filter is_sleep
     (trace (scan_host (demo_env\<lparr>probe := (\<lambda>t. ProbeTimeout)\<rparr>) (0, ''192.168.1.1'') demo_scanner)) = []"
  by (simp add: scan_host_def scan_cleanup_def scan_enter_def scan_body_def Let_def emit_def
      say_def demo_env_def demo_scanner_def)

subsection \<open>Discovery\<close>

lemma collect_hosts_map_filter:
  "collect_hosts ls live =
     live @ List.map_filter
       (\<lambda>line. if py_in ''Nmap scan report for'' line then search_ip line else None) ls"
  by (induction ls arbitrary: live) (simp_all add: List.map_filter_simps split: option.split)

text \<open>
  Claim C7, as the code has it.  The hosts of a sweep are the address tokens of the
  lines that contain the marker \<open>Nmap scan report for\<close> and an address token, in the
  order of the lines, one entry for each such line; nothing removes duplicates.
\<close>

theorem sweep_hosts_one_per_line:
  "parse_sweep out =
     List.map_filter
       (\<lambda>line. if py_in ''Nmap scan report for'' line then search_ip line else None)
       (split_nl out)"
  by (simp add: parse_sweep_def collect_hosts_map_filter)

lemma demo_parse_sweep: "parse_sweep demo_sweep_output = [''192.168.1.1'', ''192.168.1.2'']"
  by code_simp

theorem sweep_hosts_one_per_line_witness:
  "List.map_filter
       (\<lambda>line. if py_in ''Nmap scan report for'' line then search_ip line else None)
       (split_nl demo_sweep_output) = [''192.168.1.1'', ''192.168.1.2'']"
  using sweep_hosts_one_per_line [of demo_sweep_output] demo_parse_sweep by simp

text \<open>
  Claim C7 as stated fails: an address reported on two lines of the sweep output is
  returned twice.
\<close>

theorem sweep_duplicate_counterexample:
  "parse_sweep (''Nmap scan report for 10.0.0.1'' @ [nl] @ ''Nmap scan report for 10.0.0.1'') =
     [''10.0.0.1'', ''10.0.0.1''] \<and>
   \<not> distinct (parse_sweep
     (''Nmap scan report for 10.0.0.1'' @ [nl] @ ''Nmap scan report for 10.0.0.1''))"
proof -
  have "parse_sweep (''Nmap scan report for 10.0.0.1'' @ [nl] @ ''Nmap scan report for 10.0.0.1'') =
     [''10.0.0.1'', ''10.0.0.1'']"
    by code_simp
  then show ?thesis by simp
qed

subsection \<open>The address range\<close>

lemma ALL_ONES_mask: "ALL_ONES = mask 32"
  by (simp add: ALL_ONES_def mask_eq_exp_minus_1)

lemma make_netmask_mask: "make_netmask p = mask 32 XOR mask (32 - p)"
  by (simp add: make_netmask_def ALL_ONES_mask drop_bit_mask_eq)

lemma hostmask_mask: "hostmask n = mask (32 - prefixlen n)"
proof -
  have "(mask 32 XOR mask (32 - prefixlen n)) XOR mask 32 = (mask (32 - prefixlen n) :: nat)"
  proof -
    let ?a = "mask 32 :: nat" and ?b = "mask (32 - prefixlen n) :: nat"
    have "(?a XOR ?b) XOR ?a = ?a XOR (?a XOR ?b)" by (rule xor.commute)
    also have "\<dots> = (?a XOR ?a) XOR ?b" by (simp only: xor.assoc)
    also have "\<dots> = ?b" by simp
    finally show ?thesis .
  qed
  then show ?thesis
    by (simp add: hostmask_def netmask_def make_netmask_mask ALL_ONES_mask)
qed

lemma network_disjoint:
  "(addr AND make_netmask p) AND mask (32 - p) = (0::nat)"
  by (auto simp: make_netmask_mask bit_eq_iff bit_and_iff bit_xor_iff bit_mask_iff)

lemma IPv4Network_Inr:
  assumes "IPv4Network addr p = Inr n"
  shows "addr < 2 ^ 32" "p \<le> 32" "prefixlen n = p" "network_address n = addr AND make_netmask p"
  using assms by (auto simp: IPv4Network_def ALL_ONES_def split: if_splits)

lemma broadcast_plus:
  assumes "IPv4Network addr p = Inr n"
  shows "broadcast_address n = network_address n + (2 ^ (32 - p) - 1)"
proof -
  note c = IPv4Network_Inr [OF assms]
  have "network_address n AND mask (32 - p) = 0"
    by (simp add: c(4) network_disjoint)
  then have "network_address n + mask (32 - p) = network_address n OR mask (32 - p)"
    by (rule disjunctive_add_eq_or)
  then show ?thesis
    by (simp add: broadcast_address_def hostmask_mask c(3) mask_eq_exp_minus_1)
qed

lemma network_32:
  assumes "IPv4Network addr 32 = Inr n"
  shows "network_address n = addr"
proof -
  note c = IPv4Network_Inr [OF assms]
  from c(1) have "take_bit 32 addr = addr"
    by (simp add: take_bit_nat_eq_self_iff)
  then have "addr AND mask 32 = addr"
    by (simp add: take_bit_eq_mask)
  then show ?thesis by (simp add: c(4) make_netmask_mask)
qed

lemma hosts_nonempty:
  assumes "IPv4Network addr p = Inr n"
  shows "hosts n \<noteq> []"
proof -
  note c = IPv4Network_Inr [OF assms]
  note b = broadcast_plus [OF assms]
  show ?thesis
  proof (cases "p = 31 \<or> p = 32")
    case True
    then show ?thesis by (auto simp: hosts_def addresses_def c(3) b)
  next
    case False
    with c(2) have "2 \<le> 32 - p" by arith
    then have "(2::nat) ^ 2 \<le> 2 ^ (32 - p)" by (rule power_increasing) simp
    then have "network_address n + 1 < broadcast_address n" by (simp add: b)
    with False show ?thesis by (simp add: hosts_def c(3))
  qed
qed

text \<open>
  Claim C6, as the code has it.  When the sweep times out or fails, discovery returns
  the addresses that \<open>hosts()\<close> yields for the range, as text, and this list is never
  empty.  For a prefix length of at most 30 these are all addresses of the range except
  the network and the broadcast address, each once.  A range of prefix length 31 yields
  both of its addresses, which are its network and its broadcast address; a range of
  prefix length 32 yields its single address.
\<close>

theorem fallback_hosts_of_range:
  assumes "IPv4Network addr p = Inr n" and "network s = n"
    and "sweep e = SweepTimeout \<or> sweep e = SweepFailed"
  shows "discover e s = map str_ip (hosts n) \<and>
         discover e s \<noteq> [] \<and>
         (p \<le> 30 \<longrightarrow>
            set (hosts n) = set (addresses n) - {network_address n, broadcast_address n} \<and>
            distinct (hosts n)) \<and>
         (p = 31 \<longrightarrow> hosts n = [network_address n, broadcast_address n]) \<and>
         (p = 32 \<longrightarrow> hosts n = [addr])"
proof -
  note c = IPv4Network_Inr [OF assms(1)]
  note b = broadcast_plus [OF assms(1)]
  from assms(2,3) have d: "discover e s = map str_ip (hosts n)"
    by (auto simp: discover_def ping_sweep_def full_range_def Let_def)
  with hosts_nonempty [OF assms(1)] have ne: "discover e s \<noteq> []" by simp
  have le30: "p \<le> 30 \<longrightarrow>
      set (hosts n) = set (addresses n) - {network_address n, broadcast_address n} \<and>
      distinct (hosts n)"
    by (auto simp: hosts_def addresses_def c(3) b)
  have p31: "p = 31 \<longrightarrow> hosts n = [network_address n, broadcast_address n]"
    by (auto simp: hosts_def addresses_def c(3) b upt_rec)
  have p32: "p = 32 \<longrightarrow> hosts n = [addr]"
    using network_32 assms(1) by (auto simp: hosts_def c(3))
  from d ne le30 p31 p32 show ?thesis by blast
qed

lemma digit_chars: "map digit_char [0, 1, 2, 3, 4, 5, 6, 7, 8, 9] = ''0123456789''"
  by code_simp

lemma digit_char_simps:
  "digit_char 0 = CHR ''0''" "digit_char (Suc 0) = CHR ''1''" "digit_char 1 = CHR ''1''"
  "digit_char 2 = CHR ''2''" "digit_char 3 = CHR ''3''" "digit_char 4 = CHR ''4''"
  "digit_char 5 = CHR ''5''" "digit_char 6 = CHR ''6''" "digit_char 7 = CHR ''7''"
  "digit_char 8 = CHR ''8''" "digit_char 9 = CHR ''9''"
  using digit_chars by simp_all

lemma demo_network: "IPv4Network 3232235776 30 = Inr (network demo_scanner)"
  by (simp add: IPv4Network_def ALL_ONES_def make_netmask_def demo_scanner_def)

lemma demo_hosts: "hosts (network demo_scanner) = [3232235777, 3232235778]"
  using broadcast_plus [OF demo_network]
  by (simp add: hosts_def demo_scanner_def upt_rec)

theorem fallback_hosts_of_range_witness:
  "IPv4Network 3232235776 30 = Inr (network demo_scanner) \<and>
   sweep (demo_env\<lparr>sweep := SweepTimeout\<rparr>) = SweepTimeout \<and>
   discover (demo_env\<lparr>sweep := SweepTimeout\<rparr>) demo_scanner =
     [''192.168.1.1'', ''192.168.1.2'']"
proof -
  have t: "sweep (demo_env\<lparr>sweep := SweepTimeout\<rparr>) = SweepTimeout \<or>
           sweep (demo_env\<lparr>sweep := SweepTimeout\<rparr>) = SweepFailed"
    by simp
  have "map str_ip [3232235777, 3232235778] = [''192.168.1.1'', ''192.168.1.2'']"
    by (simp add: str_ip_def str_octet_def digit_char_simps)
  with fallback_hosts_of_range [OF demo_network refl t] demo_hosts demo_network
  show ?thesis by simp
qed

lemma demo_network31: "IPv4Network 3232235776 31 = Inr demo_network31"
  by (simp add: IPv4Network_def ALL_ONES_def make_netmask_def demo_network31_def)


lemma demo_hosts31: "hosts demo_network31 = [3232235776, 3232235777]"
  using broadcast_plus [OF demo_network31]
  by (simp add: hosts_def addresses_def demo_network31_def upt_rec)

text \<open>
  Claim C6 as stated fails: for \<open>192.168.1.0/31\<close> the candidates returned after a
  timed-out sweep are the network address and the broadcast address of the range.
\<close>

theorem fallback_includes_network_address_counterexample:
  "IPv4Network 3232235776 31 = Inr demo_network31 \<and>
   discover (demo_env\<lparr>sweep := SweepTimeout\<rparr>) (demo_scanner\<lparr>network := demo_network31\<rparr>) =
     [''192.168.1.0'', ''192.168.1.1''] \<and>
   str_ip (network_address demo_network31) = ''192.168.1.0'' \<and>
   str_ip (broadcast_address demo_network31) = ''192.168.1.1''"
proof -
  have h: "map str_ip (hosts demo_network31) = [''192.168.1.0'', ''192.168.1.1'']"
    by (simp add: demo_hosts31 str_ip_def str_octet_def digit_char_simps)
  have d: "discover (demo_env\<lparr>sweep := SweepTimeout\<rparr>) (demo_scanner\<lparr>network := demo_network31\<rparr>) =
     map str_ip (hosts demo_network31)"
    by (simp add: discover_def ping_sweep_def full_range_def Let_def)
  have n: "str_ip (network_address demo_network31) = ''192.168.1.0''"
    by (simp add: demo_network31_def str_ip_def str_octet_def digit_char_simps)
  have b: "str_ip (broadcast_address demo_network31) = ''192.168.1.1''"
    using broadcast_plus [OF demo_network31]
    by (simp add: demo_network31_def str_ip_def str_octet_def digit_char_simps)
  from demo_network31 h d n b show ?thesis by simp
qed

subsection \<open>The whole run\<close>

lemma NetworkScanner_Inr:
  assumes "NetworkScanner rng parsed threads d files = Inr s"
  shows "fs s = files" "trace s = []" "max_threads s = threads" "results_queue s = []"
    "active_scans s = 0" "completed_scans s = 0"
  using assms
  by (auto simp: NetworkScanner_def split: option.splits sum.splits)

lemma NetworkScanner_Inl:
  "NetworkScanner rng parsed threads d files = Inl c \<Longrightarrow> c = 1"
  by (auto simp: NetworkScanner_def split: option.splits sum.splits)

lemma discover_emit: "discover e (emit ev s) = discover e s"
  by (simp add: discover_def ping_sweep_def full_range_def emit_def Let_def
      split: sweep_outcome.split)

lemma ping_sweep_cases:
  "(sweep e = SweepInterrupt \<and>
      ping_sweep e s = Inl (KeyboardInterrupt, emit (RunPingSweep (target_range s)) s)) \<or>
   (sweep e \<noteq> SweepInterrupt \<and>
      (\<exists>s'. ping_sweep e s = Inr (discover e s, s') \<and> fs s' = fs s \<and>
            max_threads s' = max_threads s))"
  by (cases "sweep e")
     (simp_all add: ping_sweep_def discover_def Let_def emit_def say_def)

lemma run_scan_tool_missing:
  assumes "nmap_check e = CalledProcessError \<or> nmap_check e = FileNotFoundError \<or>
           nmap_check e = CheckOtherError"
  shows "run_scan e s =
           Inr (False, say ''Error: nmap is not installed or not in PATH'' (emit RunNmapVersion s)) \<or>
         run_scan e s = Inl (OtherError, emit RunNmapVersion s)"
  using assms by (auto simp: run_scan_def check_nmap_installed_def Let_def)

lemma demo_NetworkScanner:
  "NetworkScanner (arg_range demo_args) (arg_parsed demo_args) (arg_threads demo_args)
     (arg_delay demo_args) Map.empty = Inr (demo_scanner\<lparr>live_hosts := []\<rparr>)"
proof -
  have n: "IPv4Network 3232235776 30 = Inr (network demo_scanner)" by (rule demo_network)
  have "num_addresses (network demo_scanner) = 4"
    using broadcast_plus [OF n] by (simp add: num_addresses_def demo_scanner_def)
  with n show ?thesis
    by (simp add: NetworkScanner_def demo_args_def demo_scanner_def range_clean_def)
qed

lemma demo_discover:
  "discover demo_env (demo_scanner\<lparr>live_hosts := []\<rparr>) = [''192.168.1.1'', ''192.168.1.2'']"
  by (simp add: discover_def ping_sweep_def Let_def demo_env_def demo_parse_sweep)

text \<open>
  Claim C10.  If the check of the external tool fails, because the tool exits with an
  error, is not found, or cannot be started for another reason, then the process exits
  with code 1, the files are as they were before the run, and the trace of the run holds
  neither a sweep nor a probe.
\<close>

theorem tool_missing_aborts:
  assumes "nmap_check e = CalledProcessError \<or> nmap_check e = FileNotFoundError \<or>
           nmap_check e = CheckOtherError"
  shows "exit_code (main e files a) = 1 \<and>
         files_of (main e files a) = files \<and>
         filter is_tool_scan (trace_of (main e files a)) = []"
proof (cases "arg_threads a < 1 \<or> arg_threads a > 200")
  case True
  then show ?thesis
    by (simp add: main_def exit_code_def files_of_def trace_of_def)
next
  case False
  show ?thesis
  proof (cases "NetworkScanner (arg_range a) (arg_parsed a) (arg_threads a) (arg_delay a) files")
    case (Inl c)
    with False NetworkScanner_Inl [OF Inl] show ?thesis
      by (simp add: main_def exit_code_def files_of_def trace_of_def)
  next
    case (Inr s)
    note n = NetworkScanner_Inr [OF Inr]
    from run_scan_tool_missing [OF assms, of s] show ?thesis
    proof
      assume "run_scan e s =
           Inr (False, say ''Error: nmap is not installed or not in PATH'' (emit RunNmapVersion s))"
      with False Inr n show ?thesis
        by (simp add: main_def exit_code_def files_of_def trace_of_def say_def emit_def)
    next
      assume "run_scan e s = Inl (OtherError, emit RunNmapVersion s)"
      with False Inr n show ?thesis
        by (simp add: main_def exit_code_def files_of_def trace_of_def say_def emit_def Let_def)
    qed
  qed
qed

theorem tool_missing_aborts_witness:
  "nmap_check (demo_env\<lparr>nmap_check := FileNotFoundError\<rparr>) = FileNotFoundError \<and>
   exit_code (main (demo_env\<lparr>nmap_check := FileNotFoundError\<rparr>) Map.empty demo_args) = 1 \<and>
   files_of (main (demo_env\<lparr>nmap_check := FileNotFoundError\<rparr>) Map.empty demo_args) = Map.empty \<and>
   filter is_tool_scan
     (trace_of (main (demo_env\<lparr>nmap_check := FileNotFoundError\<rparr>) Map.empty demo_args)) = []"
proof -
  have h: "nmap_check (demo_env\<lparr>nmap_check := FileNotFoundError\<rparr>) = CalledProcessError \<or>
           nmap_check (demo_env\<lparr>nmap_check := FileNotFoundError\<rparr>) = FileNotFoundError \<or>
           nmap_check (demo_env\<lparr>nmap_check := FileNotFoundError\<rparr>) = CheckOtherError"
    by simp
  from tool_missing_aborts [OF h, of Map.empty demo_args] show ?thesis by simp
qed

lemma pool_create_ok:
  assumes "0 < min (max_threads s) (int (length (live_hosts s)))"
  shows "\<exists>p0. pool_create s = Inr p0"
proof -
  from assms have "\<not> min (max_threads s) (int (length (live_hosts s))) \<le> 0"
    by linarith
  then show ?thesis
    unfolding pool_create_def Let_def by (simp only: if_False) blast
qed

lemma run_scan_True_iff:
  assumes "0 < max_threads s"
  shows "(\<exists>s'. run_scan e s = Inr (True, s')) \<longleftrightarrow>
         nmap_check e = VersionOk \<and> discover e s \<noteq> [] \<and> interrupt_after e = None"
proof (cases "nmap_check e = VersionOk")
  case False
  then show ?thesis
    by (cases "nmap_check e") (simp_all add: run_scan_def check_nmap_installed_def Let_def)
next
  case True
  let ?s1 = "emit RunNmapVersion s"
  from True have chk: "check_nmap_installed e s = Inr (True, ?s1)"
    by (simp add: check_nmap_installed_def Let_def)
  from ping_sweep_cases [of e ?s1] show ?thesis
  proof (elim disjE conjE exE)
    assume "sweep e = SweepInterrupt"
      and "ping_sweep e ?s1 = Inl (KeyboardInterrupt, emit (RunPingSweep (target_range ?s1)) ?s1)"
    moreover from \<open>sweep e = SweepInterrupt\<close> have "discover e s = []"
      by (simp add: discover_def ping_sweep_def Let_def)
    ultimately show ?thesis using chk by (simp add: run_scan_def)
  next
    fix s2
    assume ps: "ping_sweep e ?s1 = Inr (discover e ?s1, s2)" and mt: "max_threads s2 = max_threads ?s1"
    have d: "discover e ?s1 = discover e s" by (rule discover_emit)
    show ?thesis
    proof (cases "discover e s = []")
      case True
      with chk ps d show ?thesis by (simp add: run_scan_def Let_def)
    next
      case False
      let ?s3 = "s2\<lparr>live_hosts := discover e s\<rparr>"
      from False assms mt have "0 < min (max_threads ?s3) (int (length (live_hosts ?s3)))"
        by (simp add: emit_def)
      then obtain p0 where p0: "pool_create ?s3 = Inr p0"
        using pool_create_ok by blast
      show ?thesis
      proof (cases "interrupt_after e")
        case None
        with chk ps d False p0 True show ?thesis
          by (simp add: run_scan_def Let_def run_pool_def)
      next
        case (Some k)
        with chk ps d False p0 True show ?thesis
          by (simp add: run_scan_def Let_def run_pool_def)
      qed
    qed
  qed
qed

lemma run_scan_exit:
  "exit_code (case run_scan e s of
      Inr (success, s') \<Rightarrow> (if success then 0 else 1, fs s', trace s')
    | Inl (KeyboardInterrupt, s') \<Rightarrow>
        (let s'' = save_results e (say ''[!] Scan interrupted by user'' s')
         in (1, fs s'', trace s''))
    | Inl (x, s') \<Rightarrow>
        (let s'' = say ''[-] Unexpected error'' s' in (1, fs s'', trace s''))) =
   (if \<exists>s'. run_scan e s = Inr (True, s') then 0 else 1)"
  by (auto simp: exit_code_def Let_def split: sum.splits exn.splits prod.splits)

text \<open>
  Claim C1, as the code has it.  The process exits with code 0 if and only if the
  thread count is between 1 and 200, the range is valid, the tool check succeeds,
  discovery hands at least one host to the scans and no interrupt arrives: that is,
  whenever the scans ran to their end, whether or not any of them produced a result.
  In every other case it exits with code 1: an invalid argument, a missing tool, no
  live host, the user's interrupt, an unexpected error.
\<close>

theorem exit_code_zero_iff_scan_ran:
  "(exit_code (main e files a) = 0 \<longleftrightarrow>
      1 \<le> arg_threads a \<and> arg_threads a \<le> 200 \<and>
      (\<exists>s0. NetworkScanner (arg_range a) (arg_parsed a) (arg_threads a) (arg_delay a) files = Inr s0 \<and>
            nmap_check e = VersionOk \<and> discover e s0 \<noteq> [] \<and> interrupt_after e = None)) \<and>
   (exit_code (main e files a) = 0 \<or> exit_code (main e files a) = 1)"
proof (cases "arg_threads a < 1 \<or> arg_threads a > 200")
  case True
  then show ?thesis by (auto simp: main_def exit_code_def)
next
  case False
  show ?thesis
  proof (cases "NetworkScanner (arg_range a) (arg_parsed a) (arg_threads a) (arg_delay a) files")
    case (Inl c)
    with False NetworkScanner_Inl [OF Inl] show ?thesis
      by (simp add: main_def exit_code_def)
  next
    case (Inr s)
    from False NetworkScanner_Inr(3) [OF Inr] have "0 < max_threads s" by simp
    note iff = run_scan_True_iff [OF this, of e]
    from False Inr have "exit_code (main e files a) =
        (if \<exists>s'. run_scan e s = Inr (True, s') then 0 else 1)"
      unfolding main_def using run_scan_exit [of e s] by simp
    with iff False Inr show ?thesis by auto
  qed
qed

theorem exit_code_zero_iff_scan_ran_witness:
  "1 \<le> arg_threads demo_args \<and> arg_threads demo_args \<le> 200 \<and>
   nmap_check demo_env = VersionOk \<and> interrupt_after demo_env = None \<and>
   discover demo_env (demo_scanner\<lparr>live_hosts := []\<rparr>) = [''192.168.1.1'', ''192.168.1.2''] \<and>
   exit_code (main demo_env Map.empty demo_args) = 0 \<and>
   exit_code (main (demo_env\<lparr>interrupt_after := Some 3\<rparr>) Map.empty demo_args) = 1"
proof -
  have a: "1 \<le> arg_threads demo_args" "arg_threads demo_args \<le> 200"
    by (simp_all add: demo_args_def)
  have e: "nmap_check demo_env = VersionOk" "interrupt_after demo_env = None"
    by (simp_all add: demo_env_def)
  from exit_code_zero_iff_scan_ran [of demo_env Map.empty demo_args]
    a e demo_NetworkScanner demo_discover
  have z: "exit_code (main demo_env Map.empty demo_args) = 0" by simp
  from exit_code_zero_iff_scan_ran [of "demo_env\<lparr>interrupt_after := Some 3\<rparr>" Map.empty demo_args]
  have o: "exit_code (main (demo_env\<lparr>interrupt_after := Some 3\<rparr>) Map.empty demo_args) = 1"
    by auto
  from a e demo_discover z o show ?thesis by blast
qed

lemma process_scan_result_fs: "fs (process_scan_result h out s) = fs s"
  by (simp add: process_scan_result_def Let_def say_def)

lemma scan_body_fs: "fs (scan_body e t s) = fs s"
  by (auto simp: scan_body_def Let_def say_def emit_def process_scan_result_fs
      process_scan_result_counters split: probe_outcome.split option.split)

lemma scan_body_quiet:
  "\<not> records_result (probe e t) \<Longrightarrow> results_queue (scan_body e t s) = results_queue s"
  by (auto simp: scan_body_queue records_result_def split: probe_outcome.splits)

lemma step_fs: "step e i p = Some p' \<Longrightarrow> fs (sc p') = fs (sc p)"
  by (erule step_cases) (simp_all add: scan_enter_def scan_cleanup_def scan_body_fs)

lemma step_quiet:
  assumes q: "\<And>t. \<not> records_result (probe e t)" and st: "step e i p = Some p'"
  shows "results_queue (sc p') = results_queue (sc p)"
  using st
  by (elim step_cases) (simp_all add: scan_enter_def scan_cleanup_def scan_body_quiet [OF q])

lemma exec_fs: "fs (sc (exec e sched p)) = fs (sc p)"
  by (induction sched arbitrary: p) (simp_all add: step_fs split: option.split)

lemma exec_quiet:
  assumes q: "\<And>t. \<not> records_result (probe e t)"
  shows "results_queue (sc (exec e sched p)) = results_queue (sc p)"
  by (induction sched arbitrary: p) (simp_all add: step_quiet [OF q] split: option.split)

lemma join_pool_fs: "fs (sc (join_pool e p)) = fs (sc p)"
proof -
  obtain sched where "join_pool e p = exec e sched p"
    using join_steps_exec [of e "weight p" p] by (auto simp: join_pool_def)
  then show ?thesis by (simp add: exec_fs)
qed

lemma join_pool_quiet:
  assumes q: "\<And>t. \<not> records_result (probe e t)"
  shows "results_queue (sc (join_pool e p)) = results_queue (sc p)"
proof -
  obtain sched where "join_pool e p = exec e sched p"
    using join_steps_exec [of e "weight p" p] by (auto simp: join_pool_def)
  then show ?thesis by (simp add: exec_quiet [OF q])
qed

lemma run_pool_Inr:
  assumes "run_pool e s = Inr s'"
  shows "fs s' = fs s"
    and "(\<And>t. \<not> records_result (probe e t)) \<Longrightarrow> results_queue s' = results_queue s"
proof -
  from assms obtain p0 where p0: "pool_create s = Inr p0"
    and s': "s' = sc (join_pool e (exec e (schedule e) p0))"
    by (auto simp: run_pool_def split: sum.splits option.splits)
  from pool_create_Inr(1) [OF p0] s' show "fs s' = fs s"
    by (simp add: join_pool_fs exec_fs)
  assume q: "\<And>t. \<not> records_result (probe e t)"
  from pool_create_Inr(1) [OF p0] s' show "results_queue s' = results_queue s"
    by (simp add: join_pool_quiet [OF q] exec_quiet [OF q])
qed

lemma ping_sweep_Inr:
  assumes "ping_sweep e s = Inr (found, s')"
  shows "fs s' = fs s" "results_queue s' = results_queue s"
  using assms
  by (auto simp: ping_sweep_def Let_def emit_def say_def split: sweep_outcome.splits)

lemma run_scan_True:
  assumes "run_scan e s = Inr (True, s')"
  shows "\<exists>s4. s' = save_results e s4 \<and> fs s4 = fs s \<and>
           ((\<forall>t. \<not> records_result (probe e t)) \<longrightarrow> results_queue s4 = results_queue s)"
proof -
  from assms obtain s1 where c: "check_nmap_installed e s = Inr (True, s1)"
    by (auto simp: run_scan_def split: sum.splits prod.splits if_splits)
  then have s1: "fs s1 = fs s" "results_queue s1 = results_queue s"
    by (auto simp: check_nmap_installed_def Let_def emit_def say_def split: check_outcome.splits)
  from assms c obtain found s2 where p: "ping_sweep e s1 = Inr (found, s2)"
    by (auto simp: run_scan_def split: sum.splits prod.splits if_splits)
  note s2 = ping_sweep_Inr [OF p]
  let ?s3 = "s2\<lparr>live_hosts := found\<rparr>"
  from assms c p obtain s4 where r: "run_pool e ?s3 = Inr s4" and s': "s' = save_results e s4"
    by (auto simp: run_scan_def Let_def split: sum.splits prod.splits if_splits)
  note s4 = run_pool_Inr [OF r]
  from s4(1) s2(1) s1(1) have f: "fs s4 = fs s" by simp
  have "(\<forall>t. \<not> records_result (probe e t)) \<longrightarrow> results_queue s4 = results_queue s"
  proof
    assume "\<forall>t. \<not> records_result (probe e t)"
    then have "\<And>t. \<not> records_result (probe e t)" by blast
    from s4(2) [OF this] s2(2) s1(2) show "results_queue s4 = results_queue s" by simp
  qed
  with s' f show ?thesis by blast
qed

lemma quiet_run_writes_nothing:
  assumes "run_scan e s = Inr (True, s')" and "\<forall>t. \<not> records_result (probe e t)"
    and "results_queue s = []"
  shows "fs s' = fs s \<and> last (trace s') = Print ''[-] No results to save''"
proof -
  from run_scan_True [OF assms(1)] assms(2) obtain s4 where
    s4: "s' = save_results e s4" "fs s4 = fs s" "results_queue s4 = results_queue s"
    by blast
  from s4(3) assms(3) have "results_queue s4 = []" by simp
  then have "save_results e s4 = say ''[-] No results to save'' s4"
    by (rule save_results_empty)
  with s4 show ?thesis by (simp add: say_def)
qed

text \<open>
  Claim C1 as stated fails: when the sweep finds the two hosts and both probes return
  without an open indication, no result is produced, no file is written, the run reports
  that there is nothing to save, and the process still exits with code 0.
\<close>

theorem exit_zero_without_results_counterexample:
  "exit_code (main (demo_env\<lparr>probe := (\<lambda>t. Returned 0 demo_closed_output)\<rparr>) Map.empty demo_args) = 0 \<and>
   files_of (main (demo_env\<lparr>probe := (\<lambda>t. Returned 0 demo_closed_output)\<rparr>) Map.empty demo_args) =
     Map.empty \<and>
   last (trace_of (main (demo_env\<lparr>probe := (\<lambda>t. Returned 0 demo_closed_output)\<rparr>)
     Map.empty demo_args)) = Print ''[-] No results to save''"
proof -
  let ?e = "demo_env\<lparr>probe := (\<lambda>t. Returned 0 demo_closed_output)\<rparr>"
  let ?s = "demo_scanner\<lparr>live_hosts := []\<rparr>"
  have q: "\<forall>t. \<not> records_result (probe ?e t)"
    by (simp add: records_result_def demo_closed_no_open)
  have d: "discover ?e ?s = [''192.168.1.1'', ''192.168.1.2'']"
    by (simp add: discover_def ping_sweep_def Let_def demo_env_def demo_parse_sweep)
  have "0 < max_threads ?s" by (simp add: demo_scanner_def)
  from run_scan_True_iff [OF this, of ?e] d
  obtain s' where r: "run_scan ?e ?s = Inr (True, s')"
    by (auto simp: demo_env_def)
  have "results_queue ?s = []" by (simp add: demo_scanner_def)
  from quiet_run_writes_nothing [OF r q this]
  have w: "fs s' = Map.empty" "last (trace s') = Print ''[-] No results to save''"
    by (simp_all add: demo_scanner_def)
  have "main ?e Map.empty demo_args = (0, fs s', trace s')"
    unfolding main_def demo_NetworkScanner using r by (simp add: demo_args_def)
  with w show ?thesis by (simp add: exit_code_def files_of_def trace_of_def)
qed

subsection \<open>The grep-friendly file\<close>

lemma scan_host_queue:
  "results_queue (scan_host e t s) =
     (case probe e t of
        Returned rc out \<Rightarrow>
          if rc = 0 \<and> py_in ''open'' (lower out) then results_queue s @ [(snd t, out)]
          else results_queue s
      | _ \<Rightarrow> results_queue s)"
  by (simp add: scan_host_def scan_cleanup_def scan_enter_def scan_body_queue
      split: probe_outcome.split)

lemma demo_vpn_facts:
  "py_in ''open'' (lower demo_vpn_output)"
  "open_ports_of demo_vpn_output = []"
  "gnmap_ports demo_vpn_output = [''1194/tcp'']"
  by code_simp+

text \<open>
  Claim C9 at the output \<open>1194/tcp closed openvpn\<close> under the usual header.  The probe's
  result is recorded, since the output contains \<open>open\<close>; \<open>process_scan_result\<close> parses
  no open port from it; the result is written to the structured file and to the log
  file; and yet the grep-friendly file gets an entry for the host that lists port
  \<open>1194/tcp\<close>, because \<open>save_results\<close> looks for \<open>open\<close> anywhere in the line and not
  in the state column.
\<close>

theorem gnmap_lists_port_that_is_not_open:
  "open_ports_of demo_vpn_output = [] \<and>
   results_queue
     (scan_host (demo_env\<lparr>probe := (\<lambda>t. Returned 0 demo_vpn_output)\<rparr>) (0, ''192.168.1.1'')
        demo_scanner) = [(''192.168.1.1'', demo_vpn_output)] \<and>
   fs (save_results (demo_env\<lparr>probe := (\<lambda>t. Returned 0 demo_vpn_output)\<rparr>)
        (scan_host (demo_env\<lparr>probe := (\<lambda>t. Returned 0 demo_vpn_output)\<rparr>) (0, ''192.168.1.1'')
           demo_scanner)) ''192-168-1-0_30-network.xml'' =
     Some (xml_text [(''192.168.1.1'', demo_vpn_output)]) \<and>
   fs (save_results (demo_env\<lparr>probe := (\<lambda>t. Returned 0 demo_vpn_output)\<rparr>)
        (scan_host (demo_env\<lparr>probe := (\<lambda>t. Returned 0 demo_vpn_output)\<rparr>) (0, ''192.168.1.1'')
           demo_scanner)) ''192-168-1-0_30-network.nmap'' =
     Some (nmap_text ''192.168.1.0/30'' ''2024-01-01 00:00:00'' [(''192.168.1.1'', demo_vpn_output)]) \<and>
   fs (save_results (demo_env\<lparr>probe := (\<lambda>t. Returned 0 demo_vpn_output)\<rparr>)
        (scan_host (demo_env\<lparr>probe := (\<lambda>t. Returned 0 demo_vpn_output)\<rparr>) (0, ''192.168.1.1'')
           demo_scanner)) ''192-168-1-0_30-network.gnmap'' =
     Some (''Host: 192.168.1.1 () Status: Up'' @ [nl] @
           ''Host: 192.168.1.1 () Ports: 1194/tcp'' @ [nl])"
proof -
  let ?e = "demo_env\<lparr>probe := (\<lambda>t. Returned 0 demo_vpn_output)\<rparr>"
  let ?s = "scan_host ?e (0, ''192.168.1.1'') demo_scanner"
  have p: "probe ?e (0, ''192.168.1.1'') = Returned 0 demo_vpn_output" by simp
  from scan_host_queue [of ?e "(0, ''192.168.1.1'')" demo_scanner] p demo_vpn_facts(1)
  have q: "results_queue ?s = [(''192.168.1.1'', demo_vpn_output)]"
    by (simp add: demo_scanner_def)
  have ob: "output_base ?s = ''192-168-1-0_30-network''" "target_range ?s = ''192.168.1.0/30''"
    by (simp_all add: scan_host_def scan_cleanup_def scan_enter_def scan_body_def Let_def emit_def
        say_def process_scan_result_def demo_scanner_def split: option.split)
  have w: "\<And>f. writable demo_env f" "now demo_env = ''2024-01-01 00:00:00''"
    by (simp_all add: demo_env_def)
  have g: "fs (save_results ?e ?s) (output_base ?s @ ''.gnmap'') =
          Some (gnmap_text [(''192.168.1.1'', demo_vpn_output)])"
    by (simp add: save_results_def Let_def drain_eq q w say_def)
  have x: "fs (save_results ?e ?s) (output_base ?s @ ''.xml'') =
          Some (xml_text [(''192.168.1.1'', demo_vpn_output)])"
    by (simp add: save_results_def Let_def drain_eq q w say_def)
  have n: "fs (save_results ?e ?s) (output_base ?s @ ''.nmap'') =
          Some (nmap_text ''192.168.1.0/30'' ''2024-01-01 00:00:00'' [(''192.168.1.1'', demo_vpn_output)])"
    by (simp add: save_results_def Let_def drain_eq q w say_def ob)
  from g x n show ?thesis
    by (simp add: demo_vpn_facts q ob gnmap_text_def gnmap_entry_def)
qed

end
